theory Spec2Isabelle
  imports Complex_Main "HOL-Library.AList"
begin

section \<open>The debate tournament of DebateClass.py and society\_debate\_tournament.py\<close>

text \<open>
  Conventions of the embedding.
  \<^item> A Python \<open>str\<close> is a \<open>string\<close>; one \<open>char\<close> stands for one code point.
  \<^item> A Python \<open>dict\<close> is an association list in insertion order; \<open>d[k] = v\<close> is
    \<open>AList.update k v d\<close> (it overwrites in place, or appends a new key at the end),
    \<open>d[k]\<close> is \<open>map_of d k\<close> with \<open>KeyError\<close> for \<open>None\<close>.
  \<^item> The two outside collaborators are parameters: the text-generation backend
    (\<open>ollama.chat\<close>) and the wall clock (\<open>time.time\<close>, \<open>datetime.now().isoformat\<close>).
    They read and change an outside world of an arbitrary type \<open>'w\<close>, which is threaded
    through every call in the order in which the source makes the calls. A backend call
    either raises (\<open>Inl\<close>) or returns the text of the reply.
  \<^item> Durations are Python floats in the source; they are real numbers here, so sums
    and quotients are exact. Nothing that is proved about a run depends on the value of
    a duration, but for the statements that say so.
  \<^item> An exception is a value \<open>Inl e\<close>; nothing in the source catches one.
  \<^item> Printing, the progress bar and the JSON files written after each phase are not
    modelled; what is written to \<open>tournament_results.json\<close> is the \<open>results\<close> record.
\<close>

datatype error = BackendError | ValueError | KeyError | IndexError | ZeroDivisionError | TypeError

record message =
  role :: string
  content :: string

record 'w env =
  chat :: "'w \<Rightarrow> string \<Rightarrow> message list \<Rightarrow> (error + string) \<times> 'w"
  clock :: "'w \<Rightarrow> real \<times> 'w"
  now_iso :: "'w \<Rightarrow> string \<times> 'w"

subsection \<open>DebateAgent\<close>

record metrics =
  total_tokens :: int
  total_time :: real
  response_times :: "real list"
  avg_response_time :: real

record DebateAgent =
  agent_id :: string
  model :: string
  conversation_history :: "message list"
  initial_position :: "string option"
  position_label :: "string option"
  performance_metrics :: metrics

definition DebateAgent_init :: "string \<Rightarrow> string \<Rightarrow> DebateAgent" where
  "DebateAgent_init aid mdl =
     \<lparr>agent_id = aid, model = mdl, conversation_history = [],
      initial_position = None, position_label = None,
      performance_metrics =
        \<lparr>total_tokens = 0, total_time = 0, response_times = [], avg_response_time = 0\<rparr>\<rparr>"

definition add_to_history :: "DebateAgent \<Rightarrow> string \<Rightarrow> string \<Rightarrow> DebateAgent" where
  "add_to_history self r c =
     self\<lparr>conversation_history := conversation_history self @ [\<lparr>role = r, content = c\<rparr>]\<rparr>"

text \<open>Truth value of an optional string: \<open>None\<close> and the empty string are false.\<close>

fun truthy :: "string option \<Rightarrow> bool" where
  "truthy None = False"
| "truthy (Some s) = (s \<noteq> [])"

text \<open>What an f-string prints for an optional string.\<close>

fun fmt_opt :: "string option \<Rightarrow> string" where
  "fmt_opt None = ''None''"
| "fmt_opt (Some s) = s"

definition get_context :: "DebateAgent \<Rightarrow> string \<Rightarrow> message list" where
  "get_context self additional_prompt =
     (if truthy (initial_position self) \<and> truthy (position_label self)
      then [\<lparr>role = ''system'',
             content = ''You are a member of a round table discussing '' @
               fmt_opt (position_label self) @ ''. Your stance is: '' @
               fmt_opt (initial_position self) @ ''.''\<rparr>]
      else [])
     @ map (\<lambda>entry. \<lparr>role = role entry, content = content entry\<rparr>) (conversation_history self)
     @ [\<lparr>role = ''user'', content = additional_prompt\<rparr>]"

text \<open>
  \<open>generate_response\<close> returns the reply or the exception, the agent as the call
  leaves it, and the world. When the backend raises, nothing of the agent has been
  touched yet.
\<close>

definition generate_response ::
  "'w env \<Rightarrow> 'w \<Rightarrow> DebateAgent \<Rightarrow> string \<Rightarrow> bool \<Rightarrow> (error + string) \<times> DebateAgent \<times> 'w" where
  "generate_response e w self prompt include_history =
     (case clock e w of (start_time, w1) \<Rightarrow>
      let messages = (if include_history then get_context self prompt
                      else [\<lparr>role = ''user'', content = prompt\<rparr>])
      in (case chat e w1 (model self) messages of
            (Inl err, w2) \<Rightarrow> (Inl err, self, w2)
          | (Inr reply, w2) \<Rightarrow>
              (case clock e w2 of (stop_time, w3) \<Rightarrow>
                (let elapsed_time = stop_time - start_time;
                     pm = performance_metrics self;
                     rts = response_times pm @ [elapsed_time];
                     pm' = pm\<lparr>response_times := rts,
                              total_time := total_time pm + elapsed_time,
                              avg_response_time := sum_list rts / real (length rts)\<rparr>;
                     self1 = self\<lparr>performance_metrics := pm'\<rparr>;
                     self2 = add_to_history self1 ''user'' prompt;
                     self3 = add_to_history self2 ''assistant'' reply
                 in (Inr reply, self3, w3)))))"

definition set_initial_position ::
  "'w env \<Rightarrow> 'w \<Rightarrow> DebateAgent \<Rightarrow> string \<Rightarrow> string \<Rightarrow> (error + string) \<times> DebateAgent \<times> 'w" where
  "set_initial_position e w self question label =
     (case generate_response e w self question False of
        (Inl err, self', w') \<Rightarrow> (Inl err, self', w')
      | (Inr response, self', w') \<Rightarrow>
          (Inr response, self'\<lparr>initial_position := Some response, position_label := Some label\<rparr>, w'))"

record agent_metrics =
  m_agent_id :: string
  m_model :: string
  total_responses :: nat
  m_total_time :: real
  m_avg_response_time :: real
  min_response_time :: real
  max_response_time :: real
  m_total_tokens :: int
  conversation_length :: nat

fun list_min :: "real list \<Rightarrow> real" where
  "list_min [] = 0"
| "list_min (x # xs) = fold min xs x"

fun list_max :: "real list \<Rightarrow> real" where
  "list_max [] = 0"
| "list_max (x # xs) = fold max xs x"

definition get_metrics :: "DebateAgent \<Rightarrow> agent_metrics" where
  "get_metrics self =
     \<lparr>m_agent_id = agent_id self,
      m_model = model self,
      total_responses = length (response_times (performance_metrics self)),
      m_total_time = total_time (performance_metrics self),
      m_avg_response_time = avg_response_time (performance_metrics self),
      min_response_time = list_min (response_times (performance_metrics self)),
      max_response_time = list_max (response_times (performance_metrics self)),
      m_total_tokens = total_tokens (performance_metrics self),
      conversation_length = length (conversation_history self)\<rparr>"

text \<open>
  A caller that makes any sequence of \<open>generate_response\<close> calls on one agent, going on
  after a call that raised: each call is a prompt and its \<open>include_history\<close> flag.
\<close>

fun run_calls :: "'w env \<Rightarrow> 'w \<Rightarrow> DebateAgent \<Rightarrow> (string \<times> bool) list \<Rightarrow> DebateAgent \<times> 'w" where
  "run_calls e w self [] = (self, w)"
| "run_calls e w self ((prompt, h) # cs) =
     (case generate_response e w self prompt h of (_, self', w') \<Rightarrow> run_calls e w' self' cs)"

text \<open>The coherence of an agent's metrics.\<close>

definition metrics_coherent :: "metrics \<Rightarrow> bool" where
  "metrics_coherent pm =
     (total_time pm = sum_list (response_times pm) \<and>
      avg_response_time pm =
        (if response_times pm = [] then 0
         else total_time pm / real (length (response_times pm))) \<and>
      total_tokens pm = 0)"

text \<open>
  A backend that records its calls: it behaves as the given one and appends the model
  and the messages of every call to a log kept beside the world.
\<close>

definition logged :: "'w env \<Rightarrow> ('w \<times> (string \<times> message list) list) env" where
  "logged e =
     \<lparr>chat = (\<lambda>(w, lg) m ms. case chat e w m ms of (r, w') \<Rightarrow> (r, (w', lg @ [(m, ms)]))),
      clock = (\<lambda>(w, lg). case clock e w of (t, w') \<Rightarrow> (t, (w', lg))),
      now_iso = (\<lambda>(w, lg). case now_iso e w of (s, w') \<Rightarrow> (s, (w', lg)))\<rparr>"

text \<open>A stub world: the backend answers every call with the same reply, the clock stands still.\<close>

definition const_env :: "string \<Rightarrow> unit env" where
  "const_env reply =
     \<lparr>chat = (\<lambda>w m ms. (Inr reply, w)), clock = (\<lambda>w. (0, w)), now_iso = (\<lambda>w. ([], w))\<rparr>"

subsection \<open>Strings: decimal numbers, line breaks\<close>

definition digit_chars :: string where
  "digit_chars = ''0123456789''"

text \<open>The decimal numeral that an f-string prints for a natural number.\<close>

fun str_nat :: "nat \<Rightarrow> string" where
  "str_nat n =
     (if n < 10 then [digit_chars ! n] else str_nat (n div 10) @ [digit_chars ! (n mod 10)])"

declare str_nat.simps [simp del]

definition nl :: string where
  "nl = [CHR 0x0A]"

subsection \<open>DebateTournament: the data\<close>

record position =
  p_agent_id :: string
  p_position :: string
  p_model :: string
  generated_at :: string

text \<open>
  A round is the dict \<open>{"type": ..., agent_a_id: ..., agent_b_id: ...}\<close> of the source:
  the round's type and the two texts live in one dict of strings.
\<close>

type_synonym debate_round = "(string \<times> string) list"

text \<open>
  \<open>debate["participants"]\<close> is always built as the two-element list
  \<open>[agent_a_id, agent_b_id]\<close>: a pair. \<open>debate["timing"]\<close> holds the one key
  \<open>duration\<close>.
\<close>

record debate =
  participants :: "string \<times> string"
  rounds :: "debate_round list"
  timing_duration :: real

record vote_record =
  voter_id :: string
  winner_id :: string
  reasoning :: string
  vote :: string

record vote_data =
  v_participants :: "string \<times> string"
  v_votes :: "vote_record list"

record tournament_metrics =
  start_time :: "real option"
  end_time :: "real option"
  total_duration :: "real option"
  phase_durations :: "(string \<times> real) list"

text \<open>The tournament's own \<open>position_label\<close> is the field \<open>t_position_label\<close>.\<close>

record DebateTournament =
  num_agents :: int
  t_position_label :: string
  topic_question :: string
  agents :: "(string \<times> DebateAgent) list"
  positions :: "(string \<times> position) list"
  debates :: "debate list"
  votes :: "(string \<times> vote_data) list"
  tournament_metrics :: tournament_metrics

record tournament_info =
  i_num_agents :: int
  i_topic_question :: string
  i_position_label :: string
  timestamp :: string
  duration :: tournament_metrics

record results =
  info :: tournament_info
  rankings :: "(string \<times> int) list"
  win_counts :: "(string \<times> int) list"
  agent_performance :: "(string \<times> agent_metrics) list"

subsection \<open>DebateTournament: construction\<close>

definition agent_key :: "nat \<Rightarrow> string" where
  "agent_key i = ''agent_'' @ str_nat i"

text \<open>
  \<open>__init__\<close>. A model list shorter than the agent count is cycled; the division by
  its length raises when it is empty. In every branch that returns, the model list has at
  least \<open>num_agents\<close> members, so \<open>models[i]\<close> is in range. The keys \<open>agent_i\<close> are
  distinct, so the dict comprehension lists them in the order of \<open>range(num_agents)\<close>.
\<close>

definition cycle_models :: "int \<Rightarrow> string list option \<Rightarrow> error + string list" where
  "cycle_models n models =
     (case models of
        None \<Rightarrow> Inr (replicate (nat n) ''llama3.2'')
      | Some ms \<Rightarrow>
          if int (length ms) < n
          then (if length ms = 0 then Inl ZeroDivisionError
                else Inr (take (nat n) (concat (replicate (nat (n div int (length ms) + 1)) ms))))
          else Inr ms)"

definition DebateTournament_init ::
  "int \<Rightarrow> string list option \<Rightarrow> string option \<Rightarrow> string \<Rightarrow> error + DebateTournament" where
  "DebateTournament_init n models topic label =
     (case cycle_models n models of
        Inl err \<Rightarrow> Inl err
      | Inr ms \<Rightarrow>
          Inr \<lparr>num_agents = n,
               t_position_label = label,
               topic_question =
                 (if truthy topic then fmt_opt topic
                  else ''Describe your ideal society in 200 words.''),
               agents = map (\<lambda>i. (agent_key i, DebateAgent_init (agent_key i) (ms ! i))) [0..<nat n],
               positions = [],
               debates = [],
               votes = [],
               tournament_metrics =
                 \<lparr>start_time = None, end_time = None, total_duration = None,
                  phase_durations = []\<rparr>\<rparr>)"

subsection \<open>Phase 1: initial positions\<close>

text \<open>
  The loop over \<open>self.agents.items()\<close>: each agent object is changed in place, the dict
  keeps its keys and their order.
\<close>

fun phase_1_loop ::
  "'w env \<Rightarrow> string \<Rightarrow> string \<Rightarrow> (string \<times> DebateAgent) list \<Rightarrow> (string \<times> position) list \<Rightarrow> 'w \<Rightarrow>
   error + ((string \<times> DebateAgent) list \<times> (string \<times> position) list \<times> 'w)" where
  "phase_1_loop e q l [] ps w = Inr ([], ps, w)"
| "phase_1_loop e q l ((aid, agent) # rest) ps w =
     (case set_initial_position e w agent q l of
        (Inl err, _, _) \<Rightarrow> Inl err
      | (Inr pos, agent', w1) \<Rightarrow>
          (case now_iso e w1 of (stamp, w2) \<Rightarrow>
             (case phase_1_loop e q l rest
                     (AList.update aid
                        \<lparr>p_agent_id = aid, p_position = pos, p_model = model agent',
                         generated_at = stamp\<rparr> ps) w2 of
                Inl err \<Rightarrow> Inl err
              | Inr (rest', ps', w') \<Rightarrow> Inr ((aid, agent') # rest', ps', w'))))"

definition set_phase_duration :: "string \<Rightarrow> real \<Rightarrow> DebateTournament \<Rightarrow> DebateTournament" where
  "set_phase_duration phase d self =
     self\<lparr>tournament_metrics :=
       (tournament_metrics self)\<lparr>phase_durations :=
          AList.update phase d (phase_durations (tournament_metrics self))\<rparr>\<rparr>"

definition run_phase_1_positions ::
  "'w env \<Rightarrow> 'w \<Rightarrow> DebateTournament \<Rightarrow> error + (DebateTournament \<times> 'w)" where
  "run_phase_1_positions e w self =
     (case clock e w of (phase_start, w1) \<Rightarrow>
        (case phase_1_loop e (topic_question self) (t_position_label self)
                (agents self) (positions self) w1 of
           Inl err \<Rightarrow> Inl err
         | Inr (ags, ps, w2) \<Rightarrow>
             (case clock e w2 of (t, w3) \<Rightarrow>
                Inr (set_phase_duration ''positions'' (t - phase_start)
                       (self\<lparr>agents := ags, positions := ps\<rparr>), w3))))"

subsection \<open>Phase 2: debates\<close>

definition rebuttal_prompt :: "string \<Rightarrow> string option \<Rightarrow> string" where
  "rebuttal_prompt label opponent_position =
     ''Your opponent's '' @ label @ '' is:'' @ nl @
     fmt_opt opponent_position @ nl @ nl @
     ''Point out specific weaknesses, contradictions, or problems with their '' @ label @ ''.'' @ nl @
     ''Be analytical and precise. Keep response under 150 words.''"

definition counter_prompt :: "string \<Rightarrow> string \<Rightarrow> string" where
  "counter_prompt label rebuttal =
     ''Your opponent criticized your '' @ label @ '' by saying:'' @ nl @
     rebuttal @ nl @ nl @
     ''Address their criticisms directly and explain why your '' @ label @ '' still holds.'' @ nl @
     ''Keep response under 150 words.''"

text \<open>
  A call of \<open>generate_response\<close> on the agent object that the dict holds under a key:
  the object is changed in place, so a later read of the same key (also when the two
  participants were the same key) sees the change.
\<close>

definition agent_respond ::
  "'w env \<Rightarrow> 'w \<Rightarrow> (string \<times> DebateAgent) list \<Rightarrow> string \<Rightarrow> string \<Rightarrow>
   error + (string \<times> (string \<times> DebateAgent) list \<times> 'w)" where
  "agent_respond e w ags aid prompt =
     (case map_of ags aid of
        None \<Rightarrow> Inl KeyError
      | Some agent \<Rightarrow>
          (case generate_response e w agent prompt True of
             (Inl err, _, _) \<Rightarrow> Inl err
           | (Inr reply, agent', w') \<Rightarrow> Inr (reply, AList.update aid agent' ags, w')))"

definition run_debate ::
  "'w env \<Rightarrow> 'w \<Rightarrow> DebateTournament \<Rightarrow> string \<Rightarrow> string \<Rightarrow>
   error + (debate \<times> DebateTournament \<times> 'w)" where
  "run_debate e w self agent_a_id agent_b_id =
     (case map_of (agents self) agent_a_id of
        None \<Rightarrow> Inl KeyError
      | Some agent_a \<Rightarrow>
     (case map_of (agents self) agent_b_id of
        None \<Rightarrow> Inl KeyError
      | Some agent_b \<Rightarrow>
     (case clock e w of (round_start, w0) \<Rightarrow>
     let label = t_position_label self;
         rebuttal_prompt_a = rebuttal_prompt label (initial_position agent_b);
         rebuttal_prompt_b = rebuttal_prompt label (initial_position agent_a)
     in
     (case agent_respond e w0 (agents self) agent_a_id rebuttal_prompt_a of
        Inl err \<Rightarrow> Inl err
      | Inr (rebuttal_a, ags1, w1) \<Rightarrow>
     (case agent_respond e w1 ags1 agent_b_id rebuttal_prompt_b of
        Inl err \<Rightarrow> Inl err
      | Inr (rebuttal_b, ags2, w2) \<Rightarrow>
     (case agent_respond e w2 ags2 agent_a_id (counter_prompt label rebuttal_b) of
        Inl err \<Rightarrow> Inl err
      | Inr (counter_a, ags3, w3) \<Rightarrow>
     (case agent_respond e w3 ags3 agent_b_id (counter_prompt label rebuttal_a) of
        Inl err \<Rightarrow> Inl err
      | Inr (counter_b, ags4, w4) \<Rightarrow>
     (case clock e w4 of (t, w5) \<Rightarrow>
        Inr (\<lparr>participants = (agent_a_id, agent_b_id),
              rounds =
                [AList.update agent_b_id rebuttal_b
                   (AList.update agent_a_id rebuttal_a [(''type'', ''first_rebuttal'')]),
                 AList.update agent_b_id counter_b
                   (AList.update agent_a_id counter_a [(''type'', ''counter_rebuttal'')])],
              timing_duration = t - round_start\<rparr>,
             self\<lparr>agents := ags4\<rparr>, w5)))))))))"

text \<open>\<open>itertools.combinations(keys, 2)\<close>: the pairs of positions \<open>i < j\<close>, in lexicographic order.\<close>

fun combinations2 :: "'a list \<Rightarrow> ('a \<times> 'a) list" where
  "combinations2 [] = []"
| "combinations2 (x # xs) = map (Pair x) xs @ combinations2 xs"

definition debate_pairs :: "DebateTournament \<Rightarrow> (string \<times> string) list" where
  "debate_pairs self = combinations2 (map fst (agents self))"

fun phase_2_loop ::
  "'w env \<Rightarrow> (string \<times> string) list \<Rightarrow> DebateTournament \<Rightarrow> 'w \<Rightarrow> error + (DebateTournament \<times> 'w)" where
  "phase_2_loop e [] self w = Inr (self, w)"
| "phase_2_loop e ((agent_a_id, agent_b_id) # ps) self w =
     (case run_debate e w self agent_a_id agent_b_id of
        Inl err \<Rightarrow> Inl err
      | Inr (d, self', w') \<Rightarrow> phase_2_loop e ps (self'\<lparr>debates := debates self' @ [d]\<rparr>) w')"

definition run_phase_2_debates ::
  "'w env \<Rightarrow> 'w \<Rightarrow> DebateTournament \<Rightarrow> error + (DebateTournament \<times> 'w)" where
  "run_phase_2_debates e w self =
     (case clock e w of (phase_start, w1) \<Rightarrow>
        (case phase_2_loop e (debate_pairs self) self w1 of
           Inl err \<Rightarrow> Inl err
         | Inr (self', w2) \<Rightarrow>
             (case clock e w2 of (t, w3) \<Rightarrow>
                Inr (set_phase_duration ''debates'' (t - phase_start) self', w3))))"

subsection \<open>Phase 3: voting\<close>

text \<open>\<open>r[i][k]\<close>: the entry of key \<open>k\<close> in the round of index \<open>i\<close>.\<close>

definition round_entry :: "debate_round list \<Rightarrow> nat \<Rightarrow> string \<Rightarrow> error + string" where
  "round_entry r i k =
     (if i < length r
      then (case map_of (r ! i) k of None \<Rightarrow> Inl KeyError | Some s \<Rightarrow> Inr s)
      else Inl IndexError)"

definition format_debate_for_voting :: "DebateTournament \<Rightarrow> debate \<Rightarrow> nat \<Rightarrow> error + string" where
  "format_debate_for_voting self d debate_index =
     (case participants d of (p0, p1) \<Rightarrow>
     (case map_of (positions self) p0 of None \<Rightarrow> Inl KeyError | Some pa \<Rightarrow>
     (case map_of (positions self) p1 of None \<Rightarrow> Inl KeyError | Some pb \<Rightarrow>
     (case round_entry (rounds d) 0 p0 of Inl err \<Rightarrow> Inl err | Inr crit_a \<Rightarrow>
     (case round_entry (rounds d) 0 p1 of Inl err \<Rightarrow> Inl err | Inr crit_b \<Rightarrow>
     (case round_entry (rounds d) 1 p0 of Inl err \<Rightarrow> Inl err | Inr def_a \<Rightarrow>
     (case round_entry (rounds d) 1 p1 of Inl err \<Rightarrow> Inl err | Inr def_b \<Rightarrow>
        Inr (''Judge this debate about '' @ t_position_label self @ ''s.'' @ nl @ nl @
             ''=== Initial Positions ==='' @ nl @
             ''Position A ('' @ p0 @ ''): '' @ p_position pa @ nl @ nl @
             ''Position B ('' @ p1 @ ''): '' @ p_position pb @ nl @ nl @
             ''=== Debate ==='' @ nl @
             ''A's criticism of B: '' @ crit_a @ nl @ nl @
             ''B's criticism of A: '' @ crit_b @ nl @ nl @
             ''A's defense: '' @ def_a @ nl @ nl @
             ''B's defense: '' @ def_b))))))))"

definition vote_prompt :: "string \<Rightarrow> string \<Rightarrow> string" where
  "vote_prompt debate_summary label =
     debate_summary @ nl @ nl @
     ''Based on the strength of arguments and rebuttals, which '' @ label @
     '' is more convincing?'' @ nl @
     ''Reply with only 'A' or 'B' and one sentence explaining why.''"

text \<open>
  The parse of a vote: \<open>"A" if "A" in vote_response[:10] else "B"\<close>, and the vote
  that is recorded for it.
\<close>

definition parse_vote :: "string \<Rightarrow> string" where
  "parse_vote vote_response = (if CHR ''A'' \<in> set (take 10 vote_response) then ''A'' else ''B'')"

definition record_vote :: "string \<times> string \<Rightarrow> string \<Rightarrow> string \<Rightarrow> vote_record" where
  "record_vote ps aid vote_response =
     (let v = parse_vote vote_response;
          winner = (if v = ''A'' then fst ps else snd ps)
      in \<lparr>voter_id = aid, winner_id = winner, reasoning = vote_response, vote = v\<rparr>)"

text \<open>
  The loop over \<open>self.agents.items()\<close> for one debate: it returns the agents as the
  votes leave them, and the debate's votes in the order in which they were cast.
\<close>

fun voting_loop ::
  "'w env \<Rightarrow> DebateTournament \<Rightarrow> debate \<Rightarrow> nat \<Rightarrow> (string \<times> DebateAgent) list \<Rightarrow> 'w \<Rightarrow>
   error + ((string \<times> DebateAgent) list \<times> vote_record list \<times> 'w)" where
  "voting_loop e self d i [] w = Inr ([], [], w)"
| "voting_loop e self d i ((aid, agent) # rest) w =
     (if aid \<noteq> fst (participants d) \<and> aid \<noteq> snd (participants d)
      then
        (case format_debate_for_voting self d i of
           Inl err \<Rightarrow> Inl err
         | Inr debate_summary \<Rightarrow>
        (case generate_response e w agent
                (vote_prompt debate_summary (t_position_label self)) True of
           (Inl err, _, _) \<Rightarrow> Inl err
         | (Inr vote_response, agent', w1) \<Rightarrow>
        (case voting_loop e self d i rest w1 of
           Inl err \<Rightarrow> Inl err
         | Inr (rest', vs, w') \<Rightarrow>
             Inr ((aid, agent') # rest',
                  record_vote (participants d) aid vote_response # vs, w'))))
      else
        (case voting_loop e self d i rest w of
           Inl err \<Rightarrow> Inl err
         | Inr (rest', vs, w') \<Rightarrow> Inr ((aid, agent) # rest', vs, w')))"

definition debate_key :: "nat \<Rightarrow> string" where
  "debate_key i = ''debate_'' @ str_nat i"

fun phase_3_loop ::
  "'w env \<Rightarrow> nat \<Rightarrow> debate list \<Rightarrow> DebateTournament \<Rightarrow> 'w \<Rightarrow> error + (DebateTournament \<times> 'w)" where
  "phase_3_loop e i [] self w = Inr (self, w)"
| "phase_3_loop e i (d # ds) self w =
     (case voting_loop e self d i (agents self) w of
        Inl err \<Rightarrow> Inl err
      | Inr (ags, debate_votes, w1) \<Rightarrow>
          phase_3_loop e (Suc i) ds
            (self\<lparr>agents := ags,
                  votes := AList.update (debate_key i)
                             \<lparr>v_participants = participants d, v_votes = debate_votes\<rparr>
                             (votes self)\<rparr>) w1)"

definition run_phase_3_voting ::
  "'w env \<Rightarrow> 'w \<Rightarrow> DebateTournament \<Rightarrow> error + (DebateTournament \<times> 'w)" where
  "run_phase_3_voting e w self =
     (case clock e w of (phase_start, w1) \<Rightarrow>
        (case phase_3_loop e 0 (debates self) self w1 of
           Inl err \<Rightarrow> Inl err
         | Inr (self', w2) \<Rightarrow>
             (case clock e w2 of (t, w3) \<Rightarrow>
                Inr (set_phase_duration ''voting'' (t - phase_start) self', w3))))"

subsection \<open>Aggregation\<close>

text \<open>
  The tally of one debate: \<open>winner_count[winner_id] = winner_count.get(winner_id, 0) + 1\<close>
  for each vote in turn, starting from the empty dict.
\<close>

definition tally_step :: "string \<Rightarrow> (string \<times> int) list \<Rightarrow> (string \<times> int) list" where
  "tally_step w wc = AList.update w ((case map_of wc w of None \<Rightarrow> 0 | Some c \<Rightarrow> c) + 1) wc"

definition tally :: "string list \<Rightarrow> (string \<times> int) list" where
  "tally ws = fold tally_step ws []"

text \<open>
  \<open>max(winner_count, key=winner_count.get)\<close>: Python's \<open>max\<close> keeps the item it holds
  unless a later one is strictly greater, and raises \<open>ValueError\<close> on an empty dict.
\<close>

fun max_from :: "'k \<times> int \<Rightarrow> ('k \<times> int) list \<Rightarrow> 'k \<times> int" where
  "max_from best [] = best"
| "max_from best (x # xs) = max_from (if snd x > snd best then x else best) xs"

definition max_key :: "('k \<times> int) list \<Rightarrow> error + 'k" where
  "max_key wc = (case wc of [] \<Rightarrow> Inl ValueError | x # xs \<Rightarrow> Inr (fst (max_from x xs)))"

definition debate_winner :: "string list \<Rightarrow> error + string" where
  "debate_winner ws = max_key (tally ws)"

text \<open>The loop over \<open>self.votes.items()\<close>; \<open>win_counts[debate_winner] += 1\<close> needs the key.\<close>

fun results_loop ::
  "(string \<times> vote_data) list \<Rightarrow> (string \<times> int) list \<Rightarrow> error + (string \<times> int) list" where
  "results_loop [] wc = Inr wc"
| "results_loop ((debate_id, vd) # rest) wc =
     (case debate_winner (map winner_id (v_votes vd)) of
        Inl err \<Rightarrow> Inl err
      | Inr w \<Rightarrow>
          (case map_of wc w of
             None \<Rightarrow> Inl KeyError
           | Some c \<Rightarrow> results_loop rest (AList.update w (c + 1) wc)))"

text \<open>
  \<open>sorted(win_counts.items(), key=lambda x: x[1], reverse=True)\<close> is a stable sort by
  descending wins: items with equal wins keep their order.
\<close>

definition rank :: "(string \<times> int) list \<Rightarrow> (string \<times> int) list" where
  "rank wc = sort_key (\<lambda>x. - snd x) wc"

text \<open>
  \<open>calculate_results\<close>. The summary printed last formats \<open>total_duration\<close> with
  \<open>:.2f\<close>, which raises \<open>TypeError\<close> on \<open>None\<close>.
\<close>

definition calculate_results ::
  "'w env \<Rightarrow> 'w \<Rightarrow> DebateTournament \<Rightarrow> error + (results \<times> 'w)" where
  "calculate_results e w self =
     (case results_loop (votes self) (map (\<lambda>aid. (aid, 0)) (map fst (agents self))) of
        Inl err \<Rightarrow> Inl err
      | Inr wc \<Rightarrow>
          (case now_iso e w of (stamp, w1) \<Rightarrow>
             (case total_duration (tournament_metrics self) of
                None \<Rightarrow> Inl TypeError
              | Some _ \<Rightarrow>
                  Inr (\<lparr>info =
                          \<lparr>i_num_agents = num_agents self,
                           i_topic_question = topic_question self,
                           i_position_label = t_position_label self,
                           timestamp = stamp,
                           duration = tournament_metrics self\<rparr>,
                        rankings = rank wc,
                        win_counts = wc,
                        agent_performance =
                          map (\<lambda>(aid, agent). (aid, get_metrics agent)) (agents self)\<rparr>,
                       w1))))"

subsection \<open>The tournament\<close>

text \<open>
  \<open>run_tournament\<close> returns what \<open>calculate_results\<close> writes, and the tournament as the
  run leaves it. No phase writes \<open>start_time\<close>, so the total is taken from the reading
  itself.
\<close>

definition set_start :: "real \<Rightarrow> DebateTournament \<Rightarrow> DebateTournament" where
  "set_start t self =
     self\<lparr>tournament_metrics := (tournament_metrics self)\<lparr>start_time := Some t\<rparr>\<rparr>"

definition set_end :: "real \<Rightarrow> real \<Rightarrow> DebateTournament \<Rightarrow> DebateTournament" where
  "set_end t0 t self =
     self\<lparr>tournament_metrics :=
       (tournament_metrics self)\<lparr>end_time := Some t, total_duration := Some (t - t0)\<rparr>\<rparr>"

definition run_phases ::
  "'w env \<Rightarrow> 'w \<Rightarrow> DebateTournament \<Rightarrow> error + (DebateTournament \<times> 'w)" where
  "run_phases e w self =
     (case run_phase_1_positions e w self of
        Inl err \<Rightarrow> Inl err
      | Inr (self1, w1) \<Rightarrow>
     (case run_phase_2_debates e w1 self1 of
        Inl err \<Rightarrow> Inl err
      | Inr (self2, w2) \<Rightarrow> run_phase_3_voting e w2 self2))"

definition run_tournament ::
  "'w env \<Rightarrow> 'w \<Rightarrow> DebateTournament \<Rightarrow> error + (results \<times> DebateTournament \<times> 'w)" where
  "run_tournament e w self =
     (case clock e w of (t0, w0) \<Rightarrow>
     (case run_phases e w0 (set_start t0 self) of
        Inl err \<Rightarrow> Inl err
      | Inr (self3, w3) \<Rightarrow>
     (case clock e w3 of (t1, w4) \<Rightarrow>
     (case calculate_results e w4 (set_end t0 t1 self3) of
        Inl err \<Rightarrow> Inl err
      | Inr (res, w5) \<Rightarrow> Inr (res, set_end t0 t1 self3, w5)))))"

subsection \<open>SocietyDebateTournament: voting and ranking\<close>

text \<open>
  Of society\_debate\_tournament.py, the vote on a debate and the ranking. Its bots are
  not objects: every call goes to the one model with a single user message. A debate has
  its participants and three rounds, a vote has no \<open>vote\<close> key.
\<close>

record society_debate =
  sd_participants :: "string \<times> string"
  sd_rounds :: "debate_round list"

record society_vote =
  s_voter_id :: string
  s_winner_id :: string
  s_reasoning :: string

record society_vote_data =
  sv_participants :: "string \<times> string"
  sv_votes :: "society_vote list"

record SocietyDebateTournament =
  s_model :: string
  num_bots :: int
  s_debates :: "society_debate list"
  s_votes :: "(string \<times> society_vote_data) list"

record summary =
  sm_rankings :: "(string \<times> int) list"
  sm_win_counts :: "(string \<times> int) list"
  total_debates :: nat
  sm_timestamp :: string

definition society_debate_text :: "society_debate \<Rightarrow> error + string" where
  "society_debate_text d =
     (case sd_participants d of (p0, p1) \<Rightarrow>
     (case round_entry (sd_rounds d) 0 p0 of Inl err \<Rightarrow> Inl err | Inr soc_a \<Rightarrow>
     (case round_entry (sd_rounds d) 0 p1 of Inl err \<Rightarrow> Inl err | Inr soc_b \<Rightarrow>
     (case round_entry (sd_rounds d) 1 p0 of Inl err \<Rightarrow> Inl err | Inr crit_a \<Rightarrow>
     (case round_entry (sd_rounds d) 1 p1 of Inl err \<Rightarrow> Inl err | Inr crit_b \<Rightarrow>
     (case round_entry (sd_rounds d) 2 p0 of Inl err \<Rightarrow> Inl err | Inr def_a \<Rightarrow>
     (case round_entry (sd_rounds d) 2 p1 of Inl err \<Rightarrow> Inl err | Inr def_b \<Rightarrow>
        Inr (''Judge this debate between two ideal societies.'' @ nl @ nl @
             ''Society A: '' @ soc_a @ nl @ nl @
             ''Society B: '' @ soc_b @ nl @ nl @
             ''A's criticism of B: '' @ crit_a @ nl @ nl @
             ''B's criticism of A: '' @ crit_b @ nl @ nl @
             ''A's defense: '' @ def_a @ nl @ nl @
             ''B's defense: '' @ def_b @ nl @ nl @
             ''Which society would you rather live in? Reply with only 'A' or 'B' and one sentence explaining why.''))))))))"

definition vote_on_debate ::
  "'w env \<Rightarrow> 'w \<Rightarrow> SocietyDebateTournament \<Rightarrow> society_debate \<Rightarrow> string \<Rightarrow>
   error + (society_vote \<times> 'w)" where
  "vote_on_debate e w self d voter =
     (case society_debate_text d of
        Inl err \<Rightarrow> Inl err
      | Inr debate_text \<Rightarrow>
          (case chat e w (s_model self) [\<lparr>role = ''user'', content = debate_text\<rparr>] of
             (Inl err, _) \<Rightarrow> Inl err
           | (Inr vote_text, w') \<Rightarrow>
               (let v = (if CHR ''A'' \<in> set (take 10 vote_text) then ''A'' else ''B'');
                    winner = (if v = ''A'' then fst (sd_participants d) else snd (sd_participants d))
                in Inr (\<lparr>s_voter_id = voter, s_winner_id = winner, s_reasoning = vote_text\<rparr>, w'))))"

definition bot_key :: "nat \<Rightarrow> string" where
  "bot_key i = ''bot_'' @ str_nat i"

fun rankings_loop ::
  "(string \<times> society_vote_data) list \<Rightarrow> (string \<times> int) list \<Rightarrow> error + (string \<times> int) list" where
  "rankings_loop [] wc = Inr wc"
| "rankings_loop ((debate_id, vd) # rest) wc =
     (case debate_winner (map s_winner_id (sv_votes vd)) of
        Inl err \<Rightarrow> Inl err
      | Inr w \<Rightarrow>
          (case map_of wc w of
             None \<Rightarrow> Inl KeyError
           | Some c \<Rightarrow> rankings_loop rest (AList.update w (c + 1) wc)))"

definition calculate_rankings ::
  "'w env \<Rightarrow> 'w \<Rightarrow> SocietyDebateTournament \<Rightarrow> error + (summary \<times> 'w)" where
  "calculate_rankings e w self =
     (case rankings_loop (s_votes self) (map (\<lambda>i. (bot_key i, 0)) [0..<nat (num_bots self)]) of
        Inl err \<Rightarrow> Inl err
      | Inr wc \<Rightarrow>
          (case now_iso e w of (stamp, w1) \<Rightarrow>
             Inr (\<lparr>sm_rankings = rank wc, sm_win_counts = wc,
                   total_debates = length (s_debates self), sm_timestamp = stamp\<rparr>, w1)))"

subsection \<open>Invariants of the phases\<close>

text \<open>
  The votes of one debate, given the keys of the registry: the participants are the
  debate's, the voters are the keys other than the two participants, in the order of the
  registry, and each vote is the parse of its own reasoning.
\<close>

definition vote_data_of :: "string list \<Rightarrow> debate \<Rightarrow> vote_data \<Rightarrow> bool" where
  "vote_data_of keys d vd =
     (v_participants vd = participants d \<and>
      map voter_id (v_votes vd) =
        filter (\<lambda>k. k \<noteq> fst (participants d) \<and> k \<noteq> snd (participants d)) keys \<and>
      (\<forall>v \<in> set (v_votes vd). v = record_vote (participants d) (voter_id v) (reasoning v)))"

text \<open>A debate whose two rounds hold a text for each participant.\<close>

definition debate_wf :: "debate \<Rightarrow> bool" where
  "debate_wf d =
     (\<forall>i \<in> {0, 1}. \<forall>k \<in> {fst (participants d), snd (participants d)}.
        \<exists>s. round_entry (rounds d) i k = Inr s)"

text \<open>A backend that answers every call: no call raises.\<close>

definition backend_answers :: "'w env \<Rightarrow> bool" where
  "backend_answers e = (\<forall>w m ms. \<exists>reply w'. chat e w m ms = (Inr reply, w'))"

subsection \<open>Stub backends and the fields that hold times\<close>

text \<open>
  A backend stub that returns fixed strings: what a call returns (or raises) depends
  on the model and the messages of the call only, as the function \<open>f\<close> says.
\<close>

definition answers_as :: "'w env \<Rightarrow> (string \<Rightarrow> message list \<Rightarrow> error + string) \<Rightarrow> bool" where
  "answers_as e f = (\<forall>w m ms. fst (chat e w m ms) = f m ms)"

text \<open>The stub \<open>f\<close> in a world without state, whose clock stands still.\<close>

definition stub_env :: "(string \<Rightarrow> message list \<Rightarrow> error + string) \<Rightarrow> unit env" where
  "stub_env f =
     \<lparr>chat = (\<lambda>w m ms. (f m ms, w)), clock = (\<lambda>w. (0, w)), now_iso = (\<lambda>w. ([], w))\<rparr>"

text \<open>
  The fields that hold a timestamp or a duration, set to a fixed value: the latencies of
  an agent (their number stays), the time a position was generated at, the duration of a
  debate, the tournament's start, end, total and phase durations, and in the results the
  timestamp, the \<open>duration\<close> entry and each agent's total, average, minimal and maximal
  response time.
\<close>

definition erase_metrics :: "metrics \<Rightarrow> metrics" where
  "erase_metrics pm =
     pm\<lparr>total_time := 0, response_times := map (\<lambda>_. 0) (response_times pm),
        avg_response_time := 0\<rparr>"

definition erase_agent :: "DebateAgent \<Rightarrow> DebateAgent" where
  "erase_agent a = a\<lparr>performance_metrics := erase_metrics (performance_metrics a)\<rparr>"

definition erase_agents :: "(string \<times> DebateAgent) list \<Rightarrow> (string \<times> DebateAgent) list" where
  "erase_agents ags = map (\<lambda>(k, a). (k, erase_agent a)) ags"

definition erase_positions :: "(string \<times> position) list \<Rightarrow> (string \<times> position) list" where
  "erase_positions ps = map (\<lambda>(k, p). (k, p\<lparr>generated_at := []\<rparr>)) ps"

definition erase_debate :: "debate \<Rightarrow> debate" where
  "erase_debate d = d\<lparr>timing_duration := 0\<rparr>"

definition erase_tournament_metrics :: "tournament_metrics \<Rightarrow> tournament_metrics" where
  "erase_tournament_metrics tm =
     \<lparr>start_time = map_option (\<lambda>_. 0) (start_time tm),
      end_time = map_option (\<lambda>_. 0) (end_time tm),
      total_duration = map_option (\<lambda>_. 0) (total_duration tm),
      phase_durations = map (\<lambda>(k, _). (k, 0)) (phase_durations tm)\<rparr>"

definition erase_tournament :: "DebateTournament \<Rightarrow> DebateTournament" where
  "erase_tournament t =
     t\<lparr>agents := erase_agents (agents t),
       positions := erase_positions (positions t),
       debates := map erase_debate (debates t),
       tournament_metrics := erase_tournament_metrics (tournament_metrics t)\<rparr>"

definition erase_agent_metrics :: "agent_metrics \<Rightarrow> agent_metrics" where
  "erase_agent_metrics m =
     m\<lparr>m_total_time := 0, m_avg_response_time := 0, min_response_time := 0,
       max_response_time := 0\<rparr>"

definition erase_results :: "results \<Rightarrow> results" where
  "erase_results r =
     r\<lparr>info := (info r)\<lparr>timestamp := [],
                          duration := erase_tournament_metrics (duration (info r))\<rparr>,
       agent_performance := map (\<lambda>(k, m). (k, erase_agent_metrics m)) (agent_performance r)\<rparr>"

text \<open>
  A stub world with a running clock: the backend answers every call with the same
  reply, and every reading of the clock is later than the one before.
\<close>

definition ticking_env :: "string \<Rightarrow> nat env" where
  "ticking_env reply =
     \<lparr>chat = (\<lambda>w m ms. (Inr reply, w)),
      clock = (\<lambda>w. (real w, Suc w)),
      now_iso = (\<lambda>w. (str_nat w, Suc w))\<rparr>"

text \<open>
  A backend that records its replies: it behaves as the given one and appends what every
  call returned or raised to a log kept beside the world.
\<close>

definition replies_logged :: "'w env \<Rightarrow> ('w \<times> (error + string) list) env" where
  "replies_logged e =
     \<lparr>chat = (\<lambda>(w, lg) m ms. case chat e w m ms of (r, w') \<Rightarrow> (r, (w', lg @ [r]))),
      clock = (\<lambda>(w, lg). case clock e w of (t, w') \<Rightarrow> (t, (w', lg))),
      now_iso = (\<lambda>(w, lg). case now_iso e w of (s, w') \<Rightarrow> (s, (w', lg)))\<rparr>"

text \<open>The stub that returns the same reply to every call.\<close>

definition const_stub :: "string \<Rightarrow> string \<Rightarrow> message list \<Rightarrow> error + string" where
  "const_stub reply m ms = Inr reply"

text \<open>
  What a run writes to \<open>tournament_results.json\<close>, or the exception it raises, with
  the two entries \<open>timestamp\<close> and \<open>duration\<close> of \<open>tournament_info\<close> set to a fixed value
  and every other entry as it is.
\<close>

definition erase_timestamp_duration :: "results \<Rightarrow> results" where
  "erase_timestamp_duration r =
     r\<lparr>info := (info r)\<lparr>timestamp := [],
                          duration := erase_tournament_metrics (duration (info r))\<rparr>\<rparr>"

definition written :: "error + results \<times> DebateTournament \<times> 'w \<Rightarrow> error + results" where
  "written x = map_sum id fst x"

section \<open>Decimal keys, association lists, pairs\<close>

lemma digit_chars_inj:
  "a < 10 \<Longrightarrow> b < 10 \<Longrightarrow> digit_chars ! a = digit_chars ! b \<Longrightarrow> a = b"
proof -
  assume a: "a < 10" and b: "b < 10" and eq: "digit_chars ! a = digit_chars ! b"
  have d: "distinct digit_chars" by (simp add: digit_chars_def)
  have l: "length digit_chars = 10" by (simp add: digit_chars_def)
  show "a = b" using d eq a b l by (simp add: nth_eq_iff_index_eq)
qed

lemma str_nat_length: "10 \<le> n \<Longrightarrow> 2 \<le> length (str_nat n)"
  by (subst str_nat.simps, subst str_nat.simps) simp

lemma str_nat_small: "n < 10 \<Longrightarrow> str_nat n = [digit_chars ! n]"
  by (subst str_nat.simps) simp

lemma str_nat_big: "10 \<le> n \<Longrightarrow> str_nat n = str_nat (n div 10) @ [digit_chars ! (n mod 10)]"
  by (subst str_nat.simps) simp

lemma str_nat_inj: "str_nat m = str_nat n \<Longrightarrow> m = n"
proof (induction m arbitrary: n rule: str_nat.induct)
  case (1 m)
  show ?case
  proof (cases "m < 10")
    case True
    show ?thesis
    proof (cases "n < 10")
      case n: True
      from "1.prems" True n show ?thesis
        by (simp add: str_nat_small digit_chars_inj)
    next
      case False
      then have "2 \<le> length (str_nat n)" by (simp add: str_nat_length)
      moreover have "length (str_nat m) = 1" using True by (simp add: str_nat_small)
      ultimately show ?thesis using "1.prems" by simp
    qed
  next
    case False
    show ?thesis
    proof (cases "n < 10")
      case True
      from False have "2 \<le> length (str_nat m)" by (simp add: str_nat_length)
      moreover have "length (str_nat n) = 1" using True by (simp add: str_nat_small)
      ultimately show ?thesis using "1.prems" by simp
    next
      case n: False
      from "1.prems" False n
      have eq: "str_nat (m div 10) = str_nat (n div 10)"
        and d: "digit_chars ! (m mod 10) = digit_chars ! (n mod 10)"
        by (simp_all add: str_nat_big)
      from "1.IH" [OF False eq] have q: "m div 10 = n div 10" .
      from d have r: "m mod 10 = n mod 10" by (simp add: digit_chars_inj)
      from q r show ?thesis by (metis div_mult_mod_eq)
    qed
  qed
qed

lemma agent_key_inj: "agent_key i = agent_key j \<Longrightarrow> i = j"
  by (simp add: agent_key_def str_nat_inj)

lemma debate_key_inj: "debate_key i = debate_key j \<Longrightarrow> i = j"
  by (simp add: debate_key_def str_nat_inj)

lemma distinct_agent_keys: "distinct (map agent_key [0..<n])"
  by (simp add: distinct_map inj_on_def agent_key_inj)

lemma distinct_debate_keys: "distinct (map debate_key [i..<j])"
  by (simp add: distinct_map inj_on_def debate_key_inj)

subsection \<open>Association lists\<close>

lemma update_fresh: "k \<notin> fst ` set al \<Longrightarrow> AList.update k v al = al @ [(k, v)]"
  by (induction al) auto

lemma update_keys_present: "map_of al k = Some c \<Longrightarrow> map fst (AList.update k v al) = map fst al"
  by (induction al) (auto split: if_splits)

lemma update_sum_present:
  "map_of al k = Some c \<Longrightarrow>
   sum_list (map snd (AList.update k (c + 1) al)) = sum_list (map snd al) + (1::int)"
  by (induction al) (auto split: if_splits)

subsection \<open>Pairs\<close>

lemma length_combinations2: "length (combinations2 xs) = length xs * (length xs - 1) div 2"
proof (induction xs)
  case Nil
  show ?case by simp
next
  case (Cons x xs)
  have "length xs + length xs * (length xs - 1) div 2 = Suc (length xs) * length xs div 2"
    by (cases "length xs") (simp_all add: algebra_simps)
  with Cons show ?case by simp
qed

lemma set_combinations2: "(a, b) \<in> set (combinations2 xs) \<Longrightarrow> a \<in> set xs \<and> b \<in> set xs"
  by (induction xs) auto

lemma combinations2_distinct_pair:
  "distinct xs \<Longrightarrow> (a, b) \<in> set (combinations2 xs) \<Longrightarrow> a \<noteq> b \<and> (b, a) \<notin> set (combinations2 xs)"
  by (induction xs) (auto dest: set_combinations2)

lemma distinct_combinations2: "distinct xs \<Longrightarrow> distinct (combinations2 xs)"
  by (induction xs) (auto simp: distinct_map inj_on_def dest: set_combinations2)

lemma combinations2_complete:
  "a \<in> set xs \<Longrightarrow> b \<in> set xs \<Longrightarrow> a \<noteq> b \<Longrightarrow>
   (a, b) \<in> set (combinations2 xs) \<or> (b, a) \<in> set (combinations2 xs)"
  by (induction xs) auto

lemma combinations2_map: "combinations2 (map f xs) = map (\<lambda>(a, b). (f a, f b)) (combinations2 xs)"
  by (induction xs) auto

lemma combinations2_upt:
  "combinations2 [i..<n] = concat (map (\<lambda>a. map (Pair a) [Suc a..<n]) [i..<n])"
proof (induction "n - i" arbitrary: i)
  case 0
  then show ?case by simp
next
  case (Suc k)
  then have lt: "i < n" and k: "k = n - Suc i" by simp_all
  from lt have u: "[i..<n] = i # [Suc i..<n]" by (simp add: upt_conv_Cons)
  show ?case using Suc.hyps(1) [OF k] by (simp add: u)
qed

section \<open>Properties of the agent\<close>

lemma generate_response_coherent:
  "metrics_coherent (performance_metrics self) \<Longrightarrow>
   metrics_coherent (performance_metrics (fst (snd (generate_response e w self prompt h))))"
  by (simp add: generate_response_def metrics_coherent_def add_to_history_def Let_def
      split: prod.splits sum.splits)

lemma run_calls_coherent:
  "metrics_coherent (performance_metrics self) \<Longrightarrow>
   metrics_coherent (performance_metrics (fst (run_calls e w self cs)))"
proof (induction cs arbitrary: w self)
  case Nil
  then show ?case by simp
next
  case (Cons c cs)
  obtain prompt h where c: "c = (prompt, h)" by (cases c)
  obtain r self' w' where g: "generate_response e w self prompt h = (r, self', w')"
    by (cases "generate_response e w self prompt h")
  have "metrics_coherent (performance_metrics self')"
    using generate_response_coherent [OF Cons.prems, of e w prompt h] g by simp
  then show ?case using Cons.IH [of self' w'] c g by simp
qed

text \<open>
  With exact arithmetic in place of the floats of the source: after any sequence of
  \<open>generate_response\<close> calls on a new agent, \<open>total_time\<close> is the sum of the recorded
  \<open>response_times\<close>, \<open>avg_response_time\<close> is their mean (0 when there is none), and
  \<open>total_tokens\<close> is 0. In the source the three are floats: \<open>total_time\<close> is added up
  with \<open>+=\<close> and the mean is taken from \<open>sum(response_times)\<close>, whose roundings need not
  agree.
\<close>

lemma metrics_coherent_exact:
  "metrics_coherent (performance_metrics (fst (run_calls e w (DebateAgent_init aid mdl) cs))) \<and>
   metrics_coherent (performance_metrics (DebateAgent_init aid mdl)) \<and>
   avg_response_time (performance_metrics (DebateAgent_init aid mdl)) = 0"
proof -
  have init: "metrics_coherent (performance_metrics (DebateAgent_init aid mdl))"
    by (simp add: metrics_coherent_def DebateAgent_init_def)
  show ?thesis
    using run_calls_coherent [OF init] init by (simp add: DebateAgent_init_def)
qed

section \<open>The phases keep the registry and build the debates and the votes\<close>

lemma generate_response_fields:
  "generate_response e w a p h = (r, a', w') \<Longrightarrow>
   agent_id a' = agent_id a \<and> model a' = model a \<and>
   initial_position a' = initial_position a \<and> position_label a' = position_label a"
  by (auto simp: generate_response_def add_to_history_def Let_def split: prod.splits sum.splits)

lemma phase_1_loop_keys:
  "phase_1_loop e q l ags ps w = Inr (ags', ps', w') \<Longrightarrow>
   map fst ags' = map fst ags \<and> fst ` set ps' = fst ` set ps \<union> fst ` set ags"
proof (induction ags arbitrary: ps w ags' ps' w')
  case Nil
  then show ?case by simp
next
  case (Cons x ags)
  obtain aid agent where x: "x = (aid, agent)" by (cases x)
  from Cons.prems x obtain p rest' ps0 w2 agent1 where
    r: "phase_1_loop e q l ags (AList.update aid p ps) w2 = Inr (rest', ps', w')"
    and a: "ags' = (aid, agent1) # rest'"
    by (auto split: prod.splits sum.splits)
  from Cons.IH [OF r] a x show ?case by (auto simp: dom_update)
qed

lemma set_phase_duration_fields [simp]:
  "agents (set_phase_duration ph d self) = agents self"
  "positions (set_phase_duration ph d self) = positions self"
  "debates (set_phase_duration ph d self) = debates self"
  "votes (set_phase_duration ph d self) = votes self"
  "num_agents (set_phase_duration ph d self) = num_agents self"
  "t_position_label (set_phase_duration ph d self) = t_position_label self"
  "topic_question (set_phase_duration ph d self) = topic_question self"
  "total_duration (tournament_metrics (set_phase_duration ph d self)) =
     total_duration (tournament_metrics self)"
  by (simp_all add: set_phase_duration_def)

lemma run_phase_1_positions_keys:
  "run_phase_1_positions e w self = Inr (self', w') \<Longrightarrow>
   map fst (agents self') = map fst (agents self) \<and>
   fst ` set (positions self') = fst ` set (positions self) \<union> fst ` set (agents self) \<and>
   debates self' = debates self \<and> votes self' = votes self"
proof -
  assume "run_phase_1_positions e w self = Inr (self', w')"
  then obtain ags ps w1 w2 t where
    l: "phase_1_loop e (topic_question self) (t_position_label self)
          (agents self) (positions self) w1 = Inr (ags, ps, w2)"
    and s: "self' = set_phase_duration ''positions'' t (self\<lparr>agents := ags, positions := ps\<rparr>)"
    by (auto simp: run_phase_1_positions_def split: prod.splits sum.splits)
  from phase_1_loop_keys [OF l] s show ?thesis by simp
qed

lemma agent_respond_keys:
  "agent_respond e w ags aid prompt = Inr (r, ags', w') \<Longrightarrow> map fst ags' = map fst ags"
  by (auto simp: agent_respond_def update_keys_present split: option.splits prod.splits sum.splits)

lemma run_debate_result:
  "run_debate e w self a b = Inr (d, self', w') \<Longrightarrow>
   participants d = (a, b) \<and>
   map fst (agents self') = map fst (agents self) \<and>
   positions self' = positions self \<and> debates self' = debates self \<and>
   votes self' = votes self"
  by (auto simp: run_debate_def Let_def split: option.splits prod.splits sum.splits
      dest!: agent_respond_keys)

lemma phase_2_loop_result:
  "phase_2_loop e ps self w = Inr (self', w') \<Longrightarrow>
   map participants (debates self') = map participants (debates self) @ ps \<and>
   map fst (agents self') = map fst (agents self) \<and>
   positions self' = positions self \<and> votes self' = votes self"
proof (induction ps arbitrary: self w)
  case Nil
  then show ?case by simp
next
  case (Cons x ps)
  obtain a b where x: "x = (a, b)" by (cases x)
  from Cons.prems x obtain d self1 w1 where
    rd: "run_debate e w self a b = Inr (d, self1, w1)"
    and r: "phase_2_loop e ps (self1\<lparr>debates := debates self1 @ [d]\<rparr>) w1 = Inr (self', w')"
    by (auto split: prod.splits sum.splits)
  from run_debate_result [OF rd] Cons.IH [OF r] x show ?case by simp
qed

lemma run_phase_2_debates_result:
  "run_phase_2_debates e w self = Inr (self', w') \<Longrightarrow>
   map participants (debates self') = map participants (debates self) @ debate_pairs self \<and>
   map fst (agents self') = map fst (agents self) \<and>
   positions self' = positions self \<and> votes self' = votes self"
  by (auto simp: run_phase_2_debates_def split: prod.splits sum.splits
      dest!: phase_2_loop_result)

lemma voting_loop_result:
  "voting_loop e self d i ags w = Inr (ags', vs, w') \<Longrightarrow>
   map fst ags' = map fst ags \<and>
   map voter_id vs =
     filter (\<lambda>k. k \<noteq> fst (participants d) \<and> k \<noteq> snd (participants d)) (map fst ags) \<and>
   (\<forall>v \<in> set vs. v = record_vote (participants d) (voter_id v) (reasoning v))"
proof (induction ags arbitrary: w ags' vs w')
  case Nil
  then show ?case by simp
next
  case (Cons x ags)
  obtain aid agent where x: "x = (aid, agent)" by (cases x)
  show ?case
  proof (cases "aid \<noteq> fst (participants d) \<and> aid \<noteq> snd (participants d)")
    case True
    from Cons.prems x True obtain reply agent1 w1 rest' vs' where
      r: "voting_loop e self d i ags w1 = Inr (rest', vs', w')"
      and a: "ags' = (aid, agent1) # rest'"
      and v: "vs = record_vote (participants d) aid reply # vs'"
      by (auto split: prod.splits sum.splits)
    from Cons.IH [OF r] a v x True show ?thesis
      by (auto simp: record_vote_def Let_def)
  next
    case False
    from Cons.prems x False obtain rest' where
      r: "voting_loop e self d i ags w = Inr (rest', vs, w')"
      and a: "ags' = (aid, agent) # rest'"
      by (auto split: prod.splits sum.splits)
    from Cons.IH [OF r] a x False show ?thesis
      by auto
  qed
qed

lemma phase_3_loop_result:
  "phase_3_loop e i ds self w = Inr (self', w') \<Longrightarrow>
   map fst (votes self) = map debate_key [0..<i] \<Longrightarrow>
   map fst (agents self') = map fst (agents self) \<and>
   positions self' = positions self \<and> debates self' = debates self \<and>
   (\<exists>new. votes self' = votes self @ new \<and>
      map fst new = map debate_key [i..<i + length ds] \<and>
      list_all2 (vote_data_of (map fst (agents self))) ds (map snd new))"
proof (induction ds arbitrary: i self w)
  case Nil
  then show ?case by simp
next
  case (Cons d ds)
  from Cons.prems(1) obtain ags vs w1 where
    vl: "voting_loop e self d i (agents self) w = Inr (ags, vs, w1)"
    and r: "phase_3_loop e (Suc i) ds
              (self\<lparr>agents := ags,
                    votes := AList.update (debate_key i)
                      \<lparr>v_participants = participants d, v_votes = vs\<rparr> (votes self)\<rparr>) w1
            = Inr (self', w')"
    by (auto split: prod.splits sum.splits)
  define vd where "vd = \<lparr>v_participants = participants d, v_votes = vs\<rparr>"
  define self1 where "self1 = self\<lparr>agents := ags, votes := AList.update (debate_key i) vd (votes self)\<rparr>"
  have fresh: "debate_key i \<notin> fst ` set (votes self)"
  proof
    assume "debate_key i \<in> fst ` set (votes self)"
    then have "debate_key i \<in> set (map fst (votes self))" by simp
    then have "debate_key i \<in> debate_key ` {0..<i}" using Cons.prems(2) by simp
    then show False by (auto dest: debate_key_inj)
  qed
  have v1: "votes self1 = votes self @ [(debate_key i, vd)]"
    using fresh by (simp add: self1_def update_fresh)
  have k1: "map fst (votes self1) = map debate_key [0..<Suc i]"
    using v1 Cons.prems(2) by simp
  from voting_loop_result [OF vl]
  have keys: "map fst ags = map fst (agents self)"
    and vdo: "vote_data_of (map fst (agents self)) d vd"
    by (auto simp: vote_data_of_def vd_def)
  from r have r': "phase_3_loop e (Suc i) ds self1 w1 = Inr (self', w')"
    by (simp add: self1_def vd_def)
  from Cons.IH [OF r' k1] obtain new where
    a: "map fst (agents self') = map fst (agents self1)"
    and p: "positions self' = positions self1" and g: "debates self' = debates self1"
    and n1: "votes self' = votes self1 @ new"
    and n2: "map fst new = map debate_key [Suc i..<Suc i + length ds]"
    and n3: "list_all2 (vote_data_of (map fst (agents self1))) ds (map snd new)"
    by blast
  have ags1: "map fst (agents self1) = map fst (agents self)"
    using keys by (simp add: self1_def)
  have "votes self' = votes self @ ((debate_key i, vd) # new)"
    using n1 v1 by simp
  moreover have "map fst ((debate_key i, vd) # new) = map debate_key [i..<i + length (d # ds)]"
  proof -
    have u: "[i..<i + length (d # ds)] = i # [Suc i..<Suc i + length ds]"
      by (subst upt_rec) simp
    show ?thesis unfolding u by (simp add: n2)
  qed
  moreover have "list_all2 (vote_data_of (map fst (agents self))) (d # ds)
                   (map snd ((debate_key i, vd) # new))"
    using n3 vdo ags1 by simp
  ultimately show ?case
    using a p g ags1 by (auto simp: self1_def)
qed

lemma run_phase_3_voting_result:
  "run_phase_3_voting e w self = Inr (self', w') \<Longrightarrow> votes self = [] \<Longrightarrow>
   map fst (agents self') = map fst (agents self) \<and>
   positions self' = positions self \<and> debates self' = debates self \<and>
   map fst (votes self') = map debate_key [0..<length (debates self)] \<and>
   list_all2 (vote_data_of (map fst (agents self))) (debates self) (map snd (votes self'))"
proof -
  assume run: "run_phase_3_voting e w self = Inr (self', w')" and v: "votes self = []"
  from run obtain w1 self1 t where
    l: "phase_3_loop e 0 (debates self) self w1 = Inr (self1, t)"
    and s: "\<exists>d. self' = set_phase_duration ''voting'' d self1"
    by (auto simp: run_phase_3_voting_def split: prod.splits sum.splits)
  from phase_3_loop_result [OF l] v s show ?thesis by auto
qed

lemma DebateTournament_init_result:
  "DebateTournament_init n models topic label = Inr self \<Longrightarrow>
   map fst (agents self) = map agent_key [0..<nat n] \<and>
   positions self = [] \<and> debates self = [] \<and> votes self = [] \<and> num_agents self = n"
  by (auto simp: DebateTournament_init_def comp_def split: sum.splits)

lemma run_phases_result:
  assumes run: "run_phases e w self = Inr (self', w')"
    and d0: "debates self = []" and v0: "votes self = []"
  shows "map fst (agents self') = map fst (agents self) \<and>
         map participants (debates self') = debate_pairs self \<and>
         map fst (votes self') = map debate_key [0..<length (debates self')] \<and>
         list_all2 (vote_data_of (map fst (agents self))) (debates self') (map snd (votes self'))"
proof -
  from run obtain self1 w1 self2 w2 where
    p1: "run_phase_1_positions e w self = Inr (self1, w1)"
    and p2: "run_phase_2_debates e w1 self1 = Inr (self2, w2)"
    and p3: "run_phase_3_voting e w2 self2 = Inr (self', w')"
    by (auto simp: run_phases_def split: prod.splits sum.splits)
  note r1 = run_phase_1_positions_keys [OF p1]
  note r2 = run_phase_2_debates_result [OF p2]
  have v2: "votes self2 = []" using r1 r2 v0 by simp
  note r3 = run_phase_3_voting_result [OF p3 v2]
  have pairs: "debate_pairs self1 = debate_pairs self"
    using r1 by (simp add: debate_pairs_def)
  show ?thesis using r1 r2 r3 d0 pairs by simp
qed

lemma length_non_participants:
  assumes "distinct xs" and "a \<in> set xs" and "b \<in> set xs" and "a \<noteq> b"
  shows "length (filter (\<lambda>k. k \<noteq> a \<and> k \<noteq> b) xs) = length xs - 2"
proof -
  have "length (filter (\<lambda>k. k \<noteq> a \<and> k \<noteq> b) xs) = card ({k. k \<noteq> a \<and> k \<noteq> b} \<inter> set xs)"
    using assms(1) by (rule distinct_length_filter)
  also have "{k. k \<noteq> a \<and> k \<noteq> b} \<inter> set xs = set xs - {a, b}" by auto
  also have "card (set xs - {a, b}) = card (set xs) - 2"
    using assms(2-4) by (simp add: card_Diff_subset)
  also have "card (set xs) = length xs" using assms(1) by (simp add: distinct_card)
  finally show ?thesis .
qed

text \<open>
  C4. A tournament constructed with \<open>n\<close> agents (any \<open>n\<close>, so every \<open>n \<ge> 2\<close>)
  registers the keys \<open>agent_0 \<dots> agent_(n-1)\<close> in this order, all distinct. The
  pairing \<open>list(combinations(self.agents.keys(), 2))\<close> lists the pairs of keys
  \<open>(agent_i, agent_j)\<close> with \<open>i < j\<close>, for \<open>i\<close> ascending and then \<open>j\<close> ascending: the
  registration order. It has \<open>n(n-1)/2\<close> members, no member occurs twice, every member
  is a pair of two different registered keys whose mirror image is no member, and every
  two different registered keys are paired one way round. The debates of a run are
  these pairs, in this order.
\<close>

theorem pairing_generation:
  "DebateTournament_init (int n) models topic label = Inr self \<Longrightarrow>
   map fst (agents self) = map agent_key [0..<n] \<and>
   distinct (map fst (agents self)) \<and>
   debate_pairs self =
     concat (map (\<lambda>i. map (\<lambda>j. (agent_key i, agent_key j)) [Suc i..<n]) [0..<n]) \<and>
   length (debate_pairs self) = n * (n - 1) div 2 \<and>
   distinct (debate_pairs self) \<and>
   (\<forall>(a, b) \<in> set (debate_pairs self).
      a \<noteq> b \<and> a \<in> fst ` set (agents self) \<and> b \<in> fst ` set (agents self) \<and>
      (b, a) \<notin> set (debate_pairs self)) \<and>
   (\<forall>a \<in> fst ` set (agents self). \<forall>b \<in> fst ` set (agents self).
      a \<noteq> b \<longrightarrow> (a, b) \<in> set (debate_pairs self) \<or> (b, a) \<in> set (debate_pairs self)) \<and>
   (\<forall>e w self' w'. run_phases e w self = Inr (self', w') \<longrightarrow>
      map participants (debates self') = debate_pairs self)"
proof -
  assume init: "DebateTournament_init (int n) models topic label = Inr self"
  let ?keys = "map fst (agents self)"
  let ?ps = "debate_pairs self"
  from DebateTournament_init_result [OF init]
  have keys: "?keys = map agent_key [0..<n]" and d0: "debates self = []" and v0: "votes self = []"
    by simp_all
  have dist: "distinct ?keys" unfolding keys by (rule distinct_agent_keys)
  have ps: "?ps = combinations2 ?keys" by (simp add: debate_pairs_def)
  have set_keys: "set ?keys = fst ` set (agents self)" by simp
  have order: "?ps = concat (map (\<lambda>i. map (\<lambda>j. (agent_key i, agent_key j)) [Suc i..<n]) [0..<n])"
    unfolding ps keys combinations2_map combinations2_upt
    by (simp add: map_concat comp_def)
  have len: "length ?ps = n * (n - 1) div 2"
    unfolding ps length_combinations2 by (simp add: keys)
  have dps: "distinct ?ps" unfolding ps using dist by (rule distinct_combinations2)
  have each: "\<forall>(a, b) \<in> set ?ps.
      a \<noteq> b \<and> a \<in> fst ` set (agents self) \<and> b \<in> fst ` set (agents self) \<and> (b, a) \<notin> set ?ps"
    unfolding ps set_keys [symmetric]
    using combinations2_distinct_pair [OF dist] set_combinations2 [of _ _ ?keys]
    by blast
  have all: "\<forall>a \<in> fst ` set (agents self). \<forall>b \<in> fst ` set (agents self).
      a \<noteq> b \<longrightarrow> (a, b) \<in> set ?ps \<or> (b, a) \<in> set ?ps"
    unfolding ps set_keys [symmetric]
    using combinations2_complete [of _ ?keys] by blast
  have run: "\<forall>e w self' w'. run_phases e w self = Inr (self', w') \<longrightarrow>
      map participants (debates self') = ?ps"
  proof (intro allI impI)
    fix e w self' w'
    assume "run_phases e w self = Inr (self', w')"
    from run_phases_result [OF this d0 v0]
    show "map participants (debates self') = ?ps" by simp
  qed
  from keys dist order len dps each all run show ?thesis by blast
qed

text \<open>
  C6. In a run of the three phases on a new tournament (no debates and no votes yet,
  the registry's keys distinct, as in a dict), the votes have one entry per debate,
  under the keys \<open>debate_0, debate_1, \<dots>\<close>; the entry of a debate names the debate's
  participants, its voters are the registry's keys other than the two participants, in
  the order of the registry, and so it has \<open>n - 2\<close> votes, for \<open>n\<close> registered agents.
\<close>

theorem voters_are_non_participants:
  assumes run: "run_phases e w self = Inr (self', w')"
    and dist: "distinct (map fst (agents self))"
    and d0: "debates self = []" and v0: "votes self = []"
  shows "map fst (agents self') = map fst (agents self) \<and>
         map fst (votes self') = map debate_key [0..<length (debates self')] \<and>
         (\<forall>i < length (debates self').
            v_participants (snd (votes self' ! i)) = participants (debates self' ! i) \<and>
            map voter_id (v_votes (snd (votes self' ! i))) =
              filter (\<lambda>k. k \<noteq> fst (participants (debates self' ! i)) \<and>
                          k \<noteq> snd (participants (debates self' ! i)))
                (map fst (agents self')) \<and>
            length (v_votes (snd (votes self' ! i))) = length (agents self') - 2)"
proof -
  let ?keys = "map fst (agents self)"
  from run_phases_result [OF run d0 v0]
  have keys: "map fst (agents self') = ?keys"
    and parts: "map participants (debates self') = debate_pairs self"
    and vkeys: "map fst (votes self') = map debate_key [0..<length (debates self')]"
    and all2: "list_all2 (vote_data_of ?keys) (debates self') (map snd (votes self'))"
    by simp_all
  have len_ags: "length (agents self') = length ?keys"
    using keys by (metis length_map)
  have "\<forall>i < length (debates self').
            v_participants (snd (votes self' ! i)) = participants (debates self' ! i) \<and>
            map voter_id (v_votes (snd (votes self' ! i))) =
              filter (\<lambda>k. k \<noteq> fst (participants (debates self' ! i)) \<and>
                          k \<noteq> snd (participants (debates self' ! i))) ?keys \<and>
            length (v_votes (snd (votes self' ! i))) = length ?keys - 2"
  proof (intro allI impI)
    fix i assume i: "i < length (debates self')"
    let ?d = "debates self' ! i"
    let ?vd = "snd (votes self' ! i)"
    from all2 i have lv: "i < length (votes self')"
      by (auto dest: list_all2_lengthD)
    from all2 i lv have vdo: "vote_data_of ?keys ?d ?vd"
      by (auto simp: list_all2_conv_all_nth)
    have "participants ?d \<in> set (debate_pairs self)"
      using parts i by (metis length_map nth_map nth_mem)
    then have pin: "(fst (participants ?d), snd (participants ?d)) \<in> set (combinations2 ?keys)"
      by (simp add: debate_pairs_def)
    from set_combinations2 [OF pin] combinations2_distinct_pair [OF dist pin]
    have a: "fst (participants ?d) \<in> set ?keys" and b: "snd (participants ?d) \<in> set ?keys"
      and ab: "fst (participants ?d) \<noteq> snd (participants ?d)"
      by simp_all
    have "length (v_votes ?vd) = length (map voter_id (v_votes ?vd))" by simp
    also have "\<dots> = length ?keys - 2"
      using vdo length_non_participants [OF dist a b ab] by (simp add: vote_data_of_def)
    finally have "length (v_votes ?vd) = length ?keys - 2" .
    with vdo show "v_participants ?vd = participants ?d \<and>
            map voter_id (v_votes ?vd) =
              filter (\<lambda>k. k \<noteq> fst (participants ?d) \<and> k \<noteq> snd (participants ?d)) ?keys \<and>
            length (v_votes ?vd) = length ?keys - 2"
      by (simp add: vote_data_of_def)
  qed
  with keys vkeys len_ags show ?thesis by simp
qed

section \<open>The tally of a debate and the count of wins\<close>

lemma tally_snoc: "tally (ws @ [x]) = tally_step x (tally ws)"
  by (simp add: tally_def)

lemma map_of_tally:
  "map_of (tally ws) k = (if k \<in> set ws then Some (int (count_list ws k)) else None)"
proof (induction ws arbitrary: k rule: rev_induct)
  case Nil
  show ?case by (simp add: tally_def)
next
  case (snoc x ws)
  show ?case
    by (simp add: tally_snoc tally_step_def update_conv' snoc)
qed

lemma tally_keys: "fst ` set (tally ws) = set ws"
proof -
  have "fst ` set (tally ws) = dom (map_of (tally ws))"
    by (simp add: dom_map_of_conv_image_fst)
  also have "\<dots> = set ws" by (auto simp: map_of_tally dom_def)
  finally show ?thesis .
qed



lemma tally_nonempty: "ws \<noteq> [] \<Longrightarrow> tally ws \<noteq> []"
  using tally_keys [of ws] by auto





lemma debate_winner_mem: "debate_winner ws = Inr k \<Longrightarrow> k \<in> set ws"
proof -
  have mf: "\<And>(b :: string \<times> int) xs. max_from b xs \<in> set (b # xs)"
  proof -
    fix b :: "string \<times> int" and xs
    show "max_from b xs \<in> set (b # xs)"
      by (induction xs arbitrary: b) (auto split: if_splits)
  qed
  assume "debate_winner ws = Inr k"
  then obtain x xs where t: "tally ws = x # xs" and k: "k = fst (max_from x xs)"
    by (auto simp: debate_winner_def max_key_def split: list.splits)
  from mf [of x xs] t have "max_from x xs \<in> set (tally ws)" by simp
  then have "k \<in> fst ` set (tally ws)" using k by (metis imageI)
  then show ?thesis by (simp add: tally_keys)
qed

lemma debate_winner_empty: "debate_winner [] = Inl ValueError"
  by (simp add: debate_winner_def max_key_def tally_def)

lemma debate_winner_nonempty: "ws \<noteq> [] \<Longrightarrow> \<exists>k. debate_winner ws = Inr k"
  using tally_nonempty [of ws]
  by (auto simp: debate_winner_def max_key_def split: list.splits)

lemma results_loop_sum:
  "results_loop vts wc = Inr wc' \<Longrightarrow>
   sum_list (map snd wc') = sum_list (map snd wc) + int (length vts) \<and>
   map fst wc' = map fst wc"
proof (induction vts arbitrary: wc)
  case Nil
  then show ?case by simp
next
  case (Cons x vts)
  obtain k vd where x: "x = (k, vd)" by (cases x)
  from Cons.prems x obtain win c where
    m: "map_of wc win = Some c"
    and r: "results_loop vts (AList.update win (c + 1) wc) = Inr wc'"
    by (auto split: sum.splits option.splits)
  from Cons.IH [OF r] update_sum_present [OF m] update_keys_present [OF m]
  show ?case by simp
qed

section \<open>A run of three agents\<close>

lemma set_start_fields [simp]:
  "agents (set_start t self) = agents self"
  "positions (set_start t self) = positions self"
  "debates (set_start t self) = debates self"
  "votes (set_start t self) = votes self"
  "num_agents (set_start t self) = num_agents self"
  by (simp_all add: set_start_def)

lemma set_end_fields [simp]:
  "agents (set_end t0 t self) = agents self"
  "positions (set_end t0 t self) = positions self"
  "debates (set_end t0 t self) = debates self"
  "votes (set_end t0 t self) = votes self"
  "num_agents (set_end t0 t self) = num_agents self"
  "total_duration (tournament_metrics (set_end t0 t self)) = Some (t - t0)"
  by (simp_all add: set_end_def)

lemma calculate_results_win_counts:
  "calculate_results e w self = Inr (res, w') \<Longrightarrow>
   results_loop (votes self) (map (\<lambda>aid. (aid, 0)) (map fst (agents self))) = Inr (win_counts res) \<and>
   rankings res = rank (win_counts res)"
  by (auto simp: calculate_results_def split: sum.splits prod.splits option.splits)

lemma run_tournament_unfold:
  "run_tournament e w self = Inr (res, self', w') \<Longrightarrow>
   \<exists>t0 w0 t w1 t1 w2.
     run_phases e w0 (set_start t0 self) = Inr (t, w1) \<and>
     self' = set_end t0 t1 t \<and>
     calculate_results e w2 self' = Inr (res, w')"
  by (auto simp: run_tournament_def split: sum.splits prod.splits)

lemma sum_zero_counts: "sum_list (map snd (map (\<lambda>aid. (aid, 0::int)) ks)) = 0"
  by (induction ks) simp_all

lemma example_phases:
  "\<exists>self self' w'. DebateTournament_init 3 None None ''position'' = Inr self \<and>
     run_phases (const_env ''A'') () self = Inr (self', w')"
proof -
  have "case DebateTournament_init 3 None None ''position'' of
          Inl _ \<Rightarrow> False
        | Inr self \<Rightarrow> (case run_phases (const_env ''A'') () self of Inl _ \<Rightarrow> False | Inr _ \<Rightarrow> True)"
    by code_simp
  then show ?thesis by (auto split: sum.splits)
qed

lemma example_tournament:
  "\<exists>self res self' w'. DebateTournament_init 3 None None ''position'' = Inr self \<and>
     run_tournament (const_env ''A'') () self = Inr (res, self', w')"
proof -
  have "case DebateTournament_init 3 None None ''position'' of
          Inl _ \<Rightarrow> False
        | Inr self \<Rightarrow>
            (case run_tournament (const_env ''A'') () self of Inl _ \<Rightarrow> False | Inr _ \<Rightarrow> True)"
    by code_simp
  then show ?thesis by (auto split: sum.splits)
qed

theorem pairing_generation_witness:
  "\<exists>self. DebateTournament_init 3 None None ''position'' = Inr self \<and>
     debate_pairs self =
       [(''agent_0'', ''agent_1''), (''agent_0'', ''agent_2''), (''agent_1'', ''agent_2'')]"
proof -
  obtain self where init: "DebateTournament_init (int 3) None None ''position'' = Inr self"
    by (simp add: DebateTournament_init_def cycle_models_def)
  have u: "[0..<3] = [0, 1, 2]" "[Suc 0..<3] = [1, 2]" "[Suc (Suc 0)..<3] = [2]"
    "[Suc 2..<3] = []" "[Suc (Suc (Suc 0))..<3] = []"
    by (simp_all add: upt_rec)
  from pairing_generation [OF init]
  have "debate_pairs self =
          concat (map (\<lambda>i. map (\<lambda>j. (agent_key i, agent_key j)) [Suc i..<3]) [0..<3])"
    by blast
  then have "debate_pairs self =
       [(''agent_0'', ''agent_1''), (''agent_0'', ''agent_2''), (''agent_1'', ''agent_2'')]"
    by (simp add: u agent_key_def str_nat_small digit_chars_def)
  with init show ?thesis by auto
qed

lemma example_keys:
  "DebateTournament_init 3 None None ''position'' = Inr self \<Longrightarrow>
   map fst (agents self) = [''agent_0'', ''agent_1'', ''agent_2''] \<and>
   debate_pairs self =
     [(''agent_0'', ''agent_1''), (''agent_0'', ''agent_2''), (''agent_1'', ''agent_2'')] \<and>
   debates self = [] \<and> votes self = []"
proof -
  assume init: "DebateTournament_init 3 None None ''position'' = Inr self"
  have u: "[0..<3] = [0, 1, 2]" by (simp add: upt_rec)
  from DebateTournament_init_result [OF init]
  have k: "map fst (agents self) = [''agent_0'', ''agent_1'', ''agent_2'']"
    and d: "debates self = []" and v: "votes self = []"
    by (simp_all add: u agent_key_def str_nat_small digit_chars_def)
  from k have "debate_pairs self =
     [(''agent_0'', ''agent_1''), (''agent_0'', ''agent_2''), (''agent_1'', ''agent_2'')]"
    by (simp add: debate_pairs_def)
  with k d v show ?thesis by simp
qed

theorem voters_are_non_participants_witness:
  "\<exists>self self' w'. DebateTournament_init 3 None None ''position'' = Inr self \<and>
     run_phases (const_env ''A'') () self = Inr (self', w') \<and>
     distinct (map fst (agents self)) \<and> debates self = [] \<and> votes self = [] \<and>
     map fst (votes self') = [''debate_0'', ''debate_1'', ''debate_2''] \<and>
     map voter_id (v_votes (snd (votes self' ! 0))) = [''agent_2''] \<and>
     length (v_votes (snd (votes self' ! 0))) = 1"
proof -
  from example_phases obtain self self' w' where
    init: "DebateTournament_init 3 None None ''position'' = Inr self"
    and run: "run_phases (const_env ''A'') () self = Inr (self', w')"
    by auto
  have u: "[0..<3] = [0, 1, 2]" by (simp add: upt_rec)
  from example_keys [OF init]
  have k3: "map fst (agents self) = [''agent_0'', ''agent_1'', ''agent_2'']"
    and pairs: "debate_pairs self =
     [(''agent_0'', ''agent_1''), (''agent_0'', ''agent_2''), (''agent_1'', ''agent_2'')]"
    and d0: "debates self = []" and v0: "votes self = []"
    by simp_all
  have dist: "distinct (map fst (agents self))" by (simp add: k3)
  from run_phases_result [OF run d0 v0] pairs
  have parts: "map participants (debates self') =
     [(''agent_0'', ''agent_1''), (''agent_0'', ''agent_2''), (''agent_1'', ''agent_2'')]"
    by simp
  have "length (map participants (debates self')) = 3" unfolding parts by simp
  then have len: "length (debates self') = 3" by simp
  have "map participants (debates self') ! 0 = (''agent_0'', ''agent_1'')"
    unfolding parts by simp
  then have p0: "participants (debates self' ! 0) = (''agent_0'', ''agent_1'')"
    using len by simp
  note facts = voters_are_non_participants [OF run dist d0 v0]
  from facts have ka: "map fst (agents self') = map fst (agents self)" by blast
  then have la: "length (agents self') = 3" using k3 by (metis length_map length_Cons list.size(3) numeral_3_eq_3)
  from facts have "map fst (votes self') = map debate_key [0..<length (debates self')]" by blast
  then have vk: "map fst (votes self') = [''debate_0'', ''debate_1'', ''debate_2'']"
    by (simp add: len u debate_key_def str_nat_small digit_chars_def)
  from facts len have
    "map voter_id (v_votes (snd (votes self' ! 0))) =
       filter (\<lambda>k. k \<noteq> fst (participants (debates self' ! 0)) \<and>
                   k \<noteq> snd (participants (debates self' ! 0))) (map fst (agents self'))"
    and "length (v_votes (snd (votes self' ! 0))) = length (agents self') - 2"
    by simp_all
  then have r: "map voter_id (v_votes (snd (votes self' ! 0))) = [''agent_2'']"
    "length (v_votes (snd (votes self' ! 0))) = 1"
    by (simp_all add: ka k3 p0 la)
  show ?thesis
    apply (rule exI [where x = self])
    apply (rule exI [where x = self'])
    apply (rule exI [where x = w'])
    using init run dist d0 v0 vk r apply simp
    done
qed

section \<open>The winner of a debate and the wins\<close>



text \<open>
  C3. When \<open>calculate_results\<close> returns, the wins it counted add up to the number of
  entries of \<open>self.votes\<close>, one credit for each, and the keys of \<open>win_counts\<close> are the
  registry's. In a run of the tournament from a state without debates and votes, whatever
  the backend answers, \<open>self.votes\<close> has one entry per debate, so the wins add up to the
  number of debates.
\<close>

theorem win_counts_sum:
  "(calculate_results e w self = Inr (res, w') \<longrightarrow>
      sum_list (map snd (win_counts res)) = int (length (votes self)) \<and>
      map fst (win_counts res) = map fst (agents self)) \<and>
   (run_tournament e w self = Inr (res, self', w') \<and> debates self = [] \<and> votes self = [] \<longrightarrow>
      sum_list (map snd (win_counts res)) = int (length (debates self')))"
proof -
  have agg: "sum_list (map snd (win_counts r)) = int (length (votes t)) \<and>
             map fst (win_counts r) = map fst (agents t)"
    if c: "calculate_results e v t = Inr (r, v')" for v t r v'
  proof -
    from calculate_results_win_counts [OF c]
    have "results_loop (votes t) (map (\<lambda>aid. (aid, 0)) (map fst (agents t)))
            = Inr (win_counts r)"
      by simp
    from results_loop_sum [OF this] show ?thesis
      by (simp add: sum_zero_counts comp_def)
  qed
  have tour: "sum_list (map snd (win_counts res)) = int (length (debates self'))"
    if run: "run_tournament e w self = Inr (res, self', w')"
      and d0: "debates self = []" and v0: "votes self = []"
  proof -
    from run_tournament_unfold [OF run] obtain t0 w0 t w1 t1 w2 where
      ph: "run_phases e w0 (set_start t0 self) = Inr (t, w1)"
      and s: "self' = set_end t0 t1 t"
      and c: "calculate_results e w2 self' = Inr (res, w')"
      by blast
    from run_phases_result [OF ph] d0 v0
    have "map fst (votes t) = map debate_key [0..<length (debates t)]" by simp
    then have "length (map fst (votes t)) = length (map debate_key [0..<length (debates t)])"
      by simp
    then have len: "length (votes self') = length (debates self')" using s by simp
    from agg [OF c] len show ?thesis by simp
  qed
  from agg tour show ?thesis by blast
qed

theorem win_counts_sum_witness:
  "\<exists>self res self' w' w2. DebateTournament_init 3 None None ''position'' = Inr self \<and>
     run_tournament (const_env ''A'') () self = Inr (res, self', w') \<and>
     debates self = [] \<and> votes self = [] \<and>
     calculate_results (const_env ''A'') w2 self' = Inr (res, w') \<and>
     sum_list (map snd (win_counts res)) = int (length (debates self')) \<and>
     sum_list (map snd (win_counts res)) = int (length (votes self'))"
proof -
  from example_tournament obtain self res self' w' where
    init: "DebateTournament_init 3 None None ''position'' = Inr self"
    and run: "run_tournament (const_env ''A'') () self = Inr (res, self', w')"
    by auto
  from example_keys [OF init] have d0: "debates self = []" and v0: "votes self = []"
    by simp_all
  from run_tournament_unfold [OF run] obtain w2 where
    c: "calculate_results (const_env ''A'') w2 self' = Inr (res, w')"
    by blast
  from win_counts_sum [where e = "const_env ''A''" and w = w2 and self = self' and res = res
      and w' = w'] c
  have r1: "sum_list (map snd (win_counts res)) = int (length (votes self'))"
    by simp
  from win_counts_sum [where e = "const_env ''A''" and w = "()" and self = self and res = res
      and w' = w' and self' = self'] run d0 v0
  have r2: "sum_list (map snd (win_counts res)) = int (length (debates self'))"
    by simp
  note r = r1 r2
  show ?thesis
    apply (rule exI [where x = self])
    apply (rule exI [where x = res])
    apply (rule exI [where x = self'])
    apply (rule exI [where x = w'])
    apply (rule exI [where x = w2])
    using init run d0 v0 c r apply simp
    done
qed

section \<open>The parse of a vote\<close>

lemma list_all2_right:
  "list_all2 P xs ys \<Longrightarrow> y \<in> set ys \<Longrightarrow> \<exists>x \<in> set xs. P x y"
  by (induction rule: list_all2_induct) auto

lemma recorded_votes_parse:
  assumes run: "run_phases e w self = Inr (self', w')"
    and d0: "debates self = []" and v0: "votes self = []"
    and vd: "vd \<in> snd ` set (votes self')" and v: "v \<in> set (v_votes vd)"
  shows "v = record_vote (v_participants vd) (voter_id v) (reasoning v)"
proof -
  from run_phases_result [OF run d0 v0]
  have "list_all2 (vote_data_of (map fst (agents self))) (debates self') (map snd (votes self'))"
    by simp
  moreover from vd have "vd \<in> set (map snd (votes self'))" by simp
  ultimately obtain d where "vote_data_of (map fst (agents self)) d vd"
    by (blast dest: list_all2_right)
  with v show ?thesis by (simp add: vote_data_of_def)
qed

section \<open>The initial position\<close>

lemma logged_generate_response:
  "generate_response (logged e) (w, lg) self prompt h =
     (case generate_response e w self prompt h of
        (r, self', w') \<Rightarrow>
          (r, self',
           (w', lg @ [(model self,
                       if h then get_context self prompt
                       else [\<lparr>role = ''user'', content = prompt\<rparr>])])))"
  by (simp add: generate_response_def logged_def Let_def split: prod.splits sum.splits)

text \<open>
  C1, as the code has it. For every agent, question and label, \<open>set_initial_position\<close>
  makes one backend call, to the agent's model, whose messages are the question as a
  single user message: no system message and nothing of the history. (The backend is
  run with a log of its calls; but for the log, the run is the run without it.) When the
  call returns a text, the text is stored as \<open>initial_position\<close>, the label as
  \<open>position_label\<close>, and the question and the text are appended to
  \<open>conversation_history\<close> as a user turn and an assistant turn. When the call raises,
  the agent is as it was.
\<close>

theorem set_initial_position_single_call:
  "case set_initial_position (logged e) (w, []) self question label of
     (r, self', (w', lg)) \<Rightarrow>
       lg = [(model self, [\<lparr>role = ''user'', content = question\<rparr>])] \<and>
       set_initial_position e w self question label = (r, self', w') \<and>
       (case r of
          Inl err \<Rightarrow> self' = self
        | Inr reply \<Rightarrow>
            initial_position self' = Some reply \<and>
            position_label self' = Some label \<and>
            conversation_history self' =
              conversation_history self @
                [\<lparr>role = ''user'', content = question\<rparr>,
                 \<lparr>role = ''assistant'', content = reply\<rparr>])"
  by (simp add: set_initial_position_def logged_generate_response)
    (simp add: generate_response_def add_to_history_def Let_def split: prod.splits sum.splits)

text \<open>
  The claim that the call leaves \<open>conversation_history\<close> unchanged fails: a new agent
  whose backend answers has two entries in its history after the call.
\<close>

theorem set_initial_position_history_counterexample:
  "conversation_history
     (fst (snd (set_initial_position (const_env ''yes'') ()
        (DebateAgent_init ''agent_0'' ''llama3.2'') ''Describe your ideal society.'' ''position'')))
   \<noteq> conversation_history (DebateAgent_init ''agent_0'' ''llama3.2'')"
  by (simp add: set_initial_position_def generate_response_def add_to_history_def
      const_env_def DebateAgent_init_def Let_def)

section \<open>With a backend that answers, the phases return\<close>

lemma generate_response_answers:
  "backend_answers e \<Longrightarrow> \<exists>r a' w'. generate_response e w a p h = (Inr r, a', w')"
proof -
  assume ans: "backend_answers e"
  obtain t0 w1 where c: "clock e w = (t0, w1)" by (cases "clock e w")
  let ?ms = "if h then get_context a p else [\<lparr>role = ''user'', content = p\<rparr>]"
  from ans obtain r w2 where ch: "chat e w1 (model a) ?ms = (Inr r, w2)"
    unfolding backend_answers_def by blast
  obtain t1 w3 where c2: "clock e w2 = (t1, w3)" by (cases "clock e w2")
  show ?thesis
    using c ch c2 by (simp add: generate_response_def Let_def)
qed

lemma set_initial_position_answers:
  "backend_answers e \<Longrightarrow> \<exists>r a' w'. set_initial_position e w a q l = (Inr r, a', w')"
proof -
  assume "backend_answers e"
  from generate_response_answers [OF this, of w a q False]
  obtain r a' w' where "generate_response e w a q False = (Inr r, a', w')" by blast
  then show ?thesis by (simp add: set_initial_position_def)
qed

lemma phase_1_loop_answers:
  "backend_answers e \<Longrightarrow> \<exists>ags' ps' w'. phase_1_loop e q l ags ps w = Inr (ags', ps', w')"
proof (induction ags arbitrary: ps w)
  case Nil
  show ?case by simp
next
  case (Cons x ags)
  obtain aid agent where x: "x = (aid, agent)" by (cases x)
  from set_initial_position_answers [OF Cons.prems, of w agent q l]
  obtain r a' w1 where s: "set_initial_position e w agent q l = (Inr r, a', w1)" by blast
  obtain stamp w2 where n: "now_iso e w1 = (stamp, w2)" by (cases "now_iso e w1")
  from Cons.IH [OF Cons.prems]
  obtain ags' ps' w' where
    "phase_1_loop e q l ags
       (AList.update aid \<lparr>p_agent_id = aid, p_position = r, p_model = model a',
          generated_at = stamp\<rparr> ps) w2 = Inr (ags', ps', w')"
    by blast
  with x s n show ?case by simp
qed

lemma run_phase_1_positions_answers:
  "backend_answers e \<Longrightarrow> \<exists>self' w'. run_phase_1_positions e w self = Inr (self', w')"
proof -
  assume ans: "backend_answers e"
  obtain t0 w1 where c: "clock e w = (t0, w1)" by (cases "clock e w")
  from phase_1_loop_answers [OF ans]
  obtain ags ps w2 where
    l: "phase_1_loop e (topic_question self) (t_position_label self) (agents self)
          (positions self) w1 = Inr (ags, ps, w2)"
    by blast
  obtain t1 w3 where c2: "clock e w2 = (t1, w3)" by (cases "clock e w2")
  show ?thesis using c l c2 by (simp add: run_phase_1_positions_def)
qed

lemma agent_respond_answers:
  "backend_answers e \<Longrightarrow> aid \<in> set (map fst ags) \<Longrightarrow>
   \<exists>r ags' w'. agent_respond e w ags aid prompt = Inr (r, ags', w') \<and> map fst ags' = map fst ags"
proof -
  assume ans: "backend_answers e" and "aid \<in> set (map fst ags)"
  then obtain agent where m: "map_of ags aid = Some agent"
    by (cases "map_of ags aid") (auto simp: map_of_eq_None_iff)
  from generate_response_answers [OF ans, of w agent prompt True]
  obtain r a' w' where "generate_response e w agent prompt True = (Inr r, a', w')" by blast
  with m show ?thesis by (simp add: agent_respond_def update_keys_present)
qed

lemma run_debate_answers:
  assumes ans: "backend_answers e"
    and a: "a \<in> set (map fst (agents self))" and b: "b \<in> set (map fst (agents self))"
  shows "\<exists>d self' w'. run_debate e w self a b = Inr (d, self', w')"
proof -
  from a obtain agent_a where ma: "map_of (agents self) a = Some agent_a"
    by (cases "map_of (agents self) a") (auto simp: map_of_eq_None_iff)
  from b obtain agent_b where mb: "map_of (agents self) b = Some agent_b"
    by (cases "map_of (agents self) b") (auto simp: map_of_eq_None_iff)
  obtain t0 w0 where c: "clock e w = (t0, w0)" by (cases "clock e w")
  let ?l = "t_position_label self"
  from agent_respond_answers [OF ans a]
  obtain r1 ags1 w1 where
    s1: "agent_respond e w0 (agents self) a (rebuttal_prompt ?l (initial_position agent_b))
           = Inr (r1, ags1, w1)"
    and k1: "map fst ags1 = map fst (agents self)"
    by blast
  from b k1 have b1: "b \<in> set (map fst ags1)" by simp
  from agent_respond_answers [OF ans b1]
  obtain r2 ags2 w2 where
    s2: "agent_respond e w1 ags1 b (rebuttal_prompt ?l (initial_position agent_a))
           = Inr (r2, ags2, w2)"
    and k2: "map fst ags2 = map fst ags1"
    by blast
  from a k1 k2 have a2: "a \<in> set (map fst ags2)" by simp
  from agent_respond_answers [OF ans a2]
  obtain r3 ags3 w3 where
    s3: "agent_respond e w2 ags2 a (counter_prompt ?l r2) = Inr (r3, ags3, w3)"
    and k3: "map fst ags3 = map fst ags2"
    by blast
  from b k1 k2 k3 have b3: "b \<in> set (map fst ags3)" by simp
  from agent_respond_answers [OF ans b3]
  obtain r4 ags4 w4 where
    s4: "agent_respond e w3 ags3 b (counter_prompt ?l r1) = Inr (r4, ags4, w4)"
    by blast
  obtain t1 w5 where c2: "clock e w4 = (t1, w5)" by (cases "clock e w4")
  show ?thesis
    using ma mb c s1 s2 s3 s4 c2 by (simp add: run_debate_def Let_def)
qed

lemma round_entry_present:
  assumes "k = a \<or> k = b" and "i = 0 \<or> i = 1"
  shows "\<exists>s. round_entry [AList.update b rb (AList.update a ra al0),
                            AList.update b cb (AList.update a ca al1)] i k = Inr s"
  using assms by (auto simp: round_entry_def update_conv' simp del: AList.update.simps)

lemma run_debate_rounds:
  "run_debate e w self a b = Inr (d, self', w') \<Longrightarrow>
   \<exists>ra rb ca cb.
     participants d = (a, b) \<and>
     rounds d = [AList.update b rb (AList.update a ra [(''type'', ''first_rebuttal'')]),
                 AList.update b cb (AList.update a ca [(''type'', ''counter_rebuttal'')])] \<and>
     t_position_label self' = t_position_label self"
  apply (clarsimp simp: run_debate_def Let_def simp del: AList.update.simps
      split: option.splits prod.splits sum.splits)
  apply (intro exI conjI; rule refl)
  done

lemma run_debate_wf:
  "run_debate e w self a b = Inr (d, self', w') \<Longrightarrow>
   debate_wf d \<and> t_position_label self' = t_position_label self"
proof -
  assume "run_debate e w self a b = Inr (d, self', w')"
  from run_debate_rounds [OF this] obtain ra rb ca cb where
    p: "participants d = (a, b)"
    and r: "rounds d = [AList.update b rb (AList.update a ra [(''type'', ''first_rebuttal'')]),
                 AList.update b cb (AList.update a ca [(''type'', ''counter_rebuttal'')])]"
    and l: "t_position_label self' = t_position_label self"
    by blast
  have "debate_wf d"
    unfolding debate_wf_def p r
    using round_entry_present [of _ a b _ rb ra "[(''type'', ''first_rebuttal'')]"
        cb ca "[(''type'', ''counter_rebuttal'')]"]
    by (auto simp del: AList.update.simps)
  with l show ?thesis by simp
qed

lemma phase_2_loop_answers:
  assumes ans: "backend_answers e"
  shows "\<forall>(a, b) \<in> set ps. a \<in> set (map fst (agents self)) \<and> b \<in> set (map fst (agents self)) \<Longrightarrow>
         \<exists>self' w'. phase_2_loop e ps self w = Inr (self', w')"
proof (induction ps arbitrary: self w)
  case Nil
  show ?case by simp
next
  case (Cons x ps)
  obtain a b where x: "x = (a, b)" by (cases x)
  from Cons.prems x have a: "a \<in> set (map fst (agents self))"
    and b: "b \<in> set (map fst (agents self))"
    by auto
  from run_debate_answers [OF ans a b]
  obtain d self1 w1 where rd: "run_debate e w self a b = Inr (d, self1, w1)" by blast
  from run_debate_result [OF rd] have k: "map fst (agents self1) = map fst (agents self)"
    by simp
  have "\<forall>(a, b) \<in> set ps.
          a \<in> set (map fst (agents (self1\<lparr>debates := debates self1 @ [d]\<rparr>))) \<and>
          b \<in> set (map fst (agents (self1\<lparr>debates := debates self1 @ [d]\<rparr>)))"
    using Cons.prems k by auto
  from Cons.IH [OF this]
  obtain self' w' where
    "phase_2_loop e ps (self1\<lparr>debates := debates self1 @ [d]\<rparr>) w1 = Inr (self', w')"
    by blast
  with x rd show ?case by simp
qed

lemma phase_2_loop_wf:
  "phase_2_loop e ps self w = Inr (self', w') \<Longrightarrow>
   \<forall>d \<in> set (debates self). debate_wf d \<Longrightarrow>
   (\<forall>d \<in> set (debates self'). debate_wf d) \<and> t_position_label self' = t_position_label self"
proof (induction ps arbitrary: self w)
  case Nil
  then show ?case by simp
next
  case (Cons x ps)
  obtain a b where x: "x = (a, b)" by (cases x)
  from Cons.prems(1) x obtain d self1 w1 where
    rd: "run_debate e w self a b = Inr (d, self1, w1)"
    and r: "phase_2_loop e ps (self1\<lparr>debates := debates self1 @ [d]\<rparr>) w1 = Inr (self', w')"
    by (auto split: prod.splits sum.splits)
  from run_debate_result [OF rd] run_debate_wf [OF rd] Cons.prems(2)
  have "\<forall>d' \<in> set (debates (self1\<lparr>debates := debates self1 @ [d]\<rparr>)). debate_wf d'"
    and l: "t_position_label self1 = t_position_label self"
    by auto
  from Cons.IH [OF r this(1)] l show ?case by simp
qed

lemma format_debate_for_voting_ok:
  assumes "fst (participants d) \<in> fst ` set (positions self)"
    and "snd (participants d) \<in> fst ` set (positions self)"
    and wf: "debate_wf d"
  shows "\<exists>s. format_debate_for_voting self d i = Inr s"
proof -
  obtain p0 p1 where p: "participants d = (p0, p1)" by (cases "participants d")
  from assms(1,2) p obtain pa pb where
    ma: "map_of (positions self) p0 = Some pa" and mb: "map_of (positions self) p1 = Some pb"
    by (cases "map_of (positions self) p0"; cases "map_of (positions self) p1")
      (auto simp: map_of_eq_None_iff)
  from wf p obtain s1 s2 s3 s4 where
    "round_entry (rounds d) 0 p0 = Inr s1" "round_entry (rounds d) 0 p1 = Inr s2"
    "round_entry (rounds d) 1 p0 = Inr s3" "round_entry (rounds d) 1 p1 = Inr s4"
    unfolding debate_wf_def by (metis fst_conv snd_conv insertI1 insertI2)
  with p ma mb show ?thesis by (simp add: format_debate_for_voting_def)
qed

lemma voting_loop_answers:
  assumes ans: "backend_answers e" and f: "format_debate_for_voting self d i = Inr s"
  shows "\<exists>ags' vs w'. voting_loop e self d i ags w = Inr (ags', vs, w')"
proof (induction ags arbitrary: w)
  case Nil
  show ?case by simp
next
  case (Cons x ags)
  obtain aid agent where x: "x = (aid, agent)" by (cases x)
  show ?case
  proof (cases "aid \<noteq> fst (participants d) \<and> aid \<noteq> snd (participants d)")
    case True
    from generate_response_answers [OF ans]
    obtain r a' w1 where
      g: "generate_response e w agent (vote_prompt s (t_position_label self)) True
            = (Inr r, a', w1)"
      by blast
    from Cons.IH obtain ags' vs w' where "voting_loop e self d i ags w1 = Inr (ags', vs, w')"
      by blast
    with x True f g show ?thesis by simp
  next
    case False
    from Cons.IH obtain ags' vs w' where "voting_loop e self d i ags w = Inr (ags', vs, w')"
      by blast
    with x False show ?thesis by auto
  qed
qed

lemma phase_3_loop_answers:
  assumes ans: "backend_answers e"
  shows "\<forall>d \<in> set ds. debate_wf d \<and> fst (participants d) \<in> fst ` set (positions self) \<and>
           snd (participants d) \<in> fst ` set (positions self) \<Longrightarrow>
         \<exists>self' w'. phase_3_loop e i ds self w = Inr (self', w')"
proof (induction ds arbitrary: i self w)
  case Nil
  show ?case by simp
next
  case (Cons d ds)
  from Cons.prems format_debate_for_voting_ok [of d self i]
  obtain s where f: "format_debate_for_voting self d i = Inr s" by auto
  from voting_loop_answers [OF ans f]
  obtain ags vs w1 where v: "voting_loop e self d i (agents self) w = Inr (ags, vs, w1)"
    by blast
  let ?self1 = "self\<lparr>agents := ags,
                  votes := AList.update (debate_key i)
                             \<lparr>v_participants = participants d, v_votes = vs\<rparr> (votes self)\<rparr>"
  have "\<forall>d \<in> set ds. debate_wf d \<and> fst (participants d) \<in> fst ` set (positions ?self1) \<and>
           snd (participants d) \<in> fst ` set (positions ?self1)"
    using Cons.prems by simp
  from Cons.IH [OF this]
  obtain self' w' where "phase_3_loop e (Suc i) ds ?self1 w1 = Inr (self', w')" by blast
  with v show ?case by simp
qed

lemma run_phases_answers:
  assumes ans: "backend_answers e" and d0: "debates self = []"
  shows "\<exists>self' w'. run_phases e w self = Inr (self', w')"
proof -
  from run_phase_1_positions_answers [OF ans]
  obtain self1 w1 where p1: "run_phase_1_positions e w self = Inr (self1, w1)" by blast
  note r1 = run_phase_1_positions_keys [OF p1]
  let ?keys = "map fst (agents self1)"
  \<comment> \<open>phase 2\<close>
  obtain t0 w2 where c: "clock e w1 = (t0, w2)" by (cases "clock e w1")
  have "\<forall>(a, b) \<in> set (debate_pairs self1). a \<in> set ?keys \<and> b \<in> set ?keys"
    by (auto simp: debate_pairs_def dest: set_combinations2)
  from phase_2_loop_answers [OF ans this]
  obtain self2 w3 where l2: "phase_2_loop e (debate_pairs self1) self1 w2 = Inr (self2, w3)"
    by blast
  obtain t1 w4 where c2: "clock e w3 = (t1, w4)" by (cases "clock e w3")
  let ?self2 = "set_phase_duration ''debates'' (t1 - t0) self2"
  have p2: "run_phase_2_debates e w1 self1 = Inr (?self2, w4)"
    using c l2 c2 by (simp add: run_phase_2_debates_def)
  have d1: "debates self1 = []" using r1 d0 by simp
  from phase_2_loop_result [OF l2] d1
  have parts: "map participants (debates self2) = debate_pairs self1"
    and pos2: "positions self2 = positions self1"
    by simp_all
  from phase_2_loop_wf [OF l2] d1 have wf: "\<forall>d \<in> set (debates self2). debate_wf d"
    by simp
  \<comment> \<open>phase 3\<close>
  obtain t2 w5 where c3: "clock e w4 = (t2, w5)" by (cases "clock e w4")
  have "\<forall>d \<in> set (debates ?self2). debate_wf d \<and>
          fst (participants d) \<in> fst ` set (positions ?self2) \<and>
          snd (participants d) \<in> fst ` set (positions ?self2)"
  proof
    fix d assume d: "d \<in> set (debates ?self2)"
    then have "participants d \<in> set (map participants (debates self2))" by simp
    then have "(fst (participants d), snd (participants d)) \<in> set (combinations2 ?keys)"
      unfolding parts by (simp add: debate_pairs_def)
    from set_combinations2 [OF this]
    have "fst (participants d) \<in> fst ` set (agents self1)"
      and "snd (participants d) \<in> fst ` set (agents self1)"
      by simp_all
    moreover have "fst ` set (agents self1) \<subseteq> fst ` set (positions self1)"
    proof -
      have "fst ` set (agents self1) = set (map fst (agents self1))" by simp
      also have "\<dots> = set (map fst (agents self))" using r1 by simp
      also have "\<dots> \<subseteq> fst ` set (positions self1)" using r1 by auto
      finally show ?thesis .
    qed
    ultimately show "debate_wf d \<and>
          fst (participants d) \<in> fst ` set (positions ?self2) \<and>
          snd (participants d) \<in> fst ` set (positions ?self2)"
      using wf d pos2 by auto
  qed
  from phase_3_loop_answers [OF ans this]
  obtain self3 w6 where l3: "phase_3_loop e 0 (debates ?self2) ?self2 w5 = Inr (self3, w6)"
    by blast
  obtain t3 w7 where c4: "clock e w6 = (t3, w7)" by (cases "clock e w6")
  have p3: "run_phase_3_voting e w4 ?self2 =
              Inr (set_phase_duration ''voting'' (t3 - t2) self3, w7)"
    using c3 l3 c4 by (simp add: run_phase_3_voting_def)
  show ?thesis using p1 p2 p3 by (simp add: run_phases_def)
qed

lemma results_loop_answers:
  "\<forall>vd \<in> snd ` set vts. v_votes vd \<noteq> [] \<and> winner_id ` set (v_votes vd) \<subseteq> fst ` set wc \<Longrightarrow>
   \<exists>wc'. results_loop vts wc = Inr wc'"
proof (induction vts arbitrary: wc)
  case Nil
  show ?case by simp
next
  case (Cons x vts)
  obtain k vd where x: "x = (k, vd)" by (cases x)
  from Cons.prems x have ne: "map winner_id (v_votes vd) \<noteq> []"
    and sub: "winner_id ` set (v_votes vd) \<subseteq> fst ` set wc"
    by auto
  from debate_winner_nonempty [OF ne]
  obtain win where dw: "debate_winner (map winner_id (v_votes vd)) = Inr win" by blast
  from debate_winner_mem [OF dw] sub have "win \<in> fst ` set wc" by auto
  then obtain c where m: "map_of wc win = Some c"
    by (cases "map_of wc win") (auto simp: map_of_eq_None_iff)
  have "fst ` set (AList.update win (c + 1) wc) = fst ` set wc"
    using update_keys_present [OF m, of "c + 1"] by (metis set_map)
  with Cons.prems x
  have "\<forall>vd \<in> snd ` set vts. v_votes vd \<noteq> [] \<and>
          winner_id ` set (v_votes vd) \<subseteq> fst ` set (AList.update win (c + 1) wc)"
    by auto
  from Cons.IH [OF this] dw m x show ?case by simp
qed

lemma results_loop_empty_votes:
  "vd \<in> snd ` set vts \<Longrightarrow> v_votes vd = [] \<Longrightarrow> \<exists>err. results_loop vts wc = Inl err"
proof (induction vts arbitrary: wc)
  case Nil
  then show ?case by simp
next
  case (Cons x vts)
  obtain k vd' where x: "x = (k, vd')" by (cases x)
  show ?case
  proof (cases "vd' = vd")
    case True
    with x Cons.prems(2) show ?thesis by (simp add: debate_winner_empty)
  next
    case False
    with Cons.prems x have "vd \<in> snd ` set vts" by auto
    from Cons.IH [OF this Cons.prems(2)] x show ?thesis
      by (auto split: sum.splits option.splits)
  qed
qed

lemma record_vote_winner: "winner_id (record_vote p voter r) \<in> {fst p, snd p}"
  by (simp add: record_vote_def Let_def)

lemma calculate_results_answers:
  assumes "results_loop (votes self) (map (\<lambda>aid. (aid, 0)) (map fst (agents self))) = Inr wc"
    and "total_duration (tournament_metrics self) \<noteq> None"
  shows "\<exists>res w'. calculate_results e w self = Inr (res, w') \<and> win_counts res = wc \<and>
           rankings res = rank wc"
proof -
  obtain stamp w1 where n: "now_iso e w = (stamp, w1)" by (cases "now_iso e w")
  from assms(2) obtain td where "total_duration (tournament_metrics self) = Some td" by auto
  with assms(1) n show ?thesis by (simp add: calculate_results_def)
qed

lemma calculate_results_fails:
  "results_loop (votes self) (map (\<lambda>aid. (aid, 0)) (map fst (agents self))) = Inl err \<Longrightarrow>
   calculate_results e w self = Inl err"
  by (simp add: calculate_results_def)

section \<open>Aggregation after the phases\<close>

lemma phases_vote_data:
  assumes run: "run_phases e w self = Inr (self', w')"
    and dist: "distinct (map fst (agents self))"
    and d0: "debates self = []" and v0: "votes self = []"
    and vd: "vd \<in> snd ` set (votes self')"
  shows "v_participants vd \<in> set (debate_pairs self) \<and>
         fst (v_participants vd) \<in> set (map fst (agents self)) \<and>
         snd (v_participants vd) \<in> set (map fst (agents self)) \<and>
         fst (v_participants vd) \<noteq> snd (v_participants vd) \<and>
         length (v_votes vd) = length (agents self) - 2 \<and>
         winner_id ` set (v_votes vd) \<subseteq> {fst (v_participants vd), snd (v_participants vd)}"
proof -
  let ?keys = "map fst (agents self)"
  from run_phases_result [OF run d0 v0]
  have parts: "map participants (debates self') = debate_pairs self"
    and all2: "list_all2 (vote_data_of ?keys) (debates self') (map snd (votes self'))"
    by simp_all
  from vd have "vd \<in> set (map snd (votes self'))" by simp
  from list_all2_right [OF all2 this] obtain d where
    d: "d \<in> set (debates self')" and vdo: "vote_data_of ?keys d vd"
    by blast
  from vdo have p: "v_participants vd = participants d"
    and voters: "map voter_id (v_votes vd) =
       filter (\<lambda>k. k \<noteq> fst (participants d) \<and> k \<noteq> snd (participants d)) ?keys"
    and rec: "\<forall>v \<in> set (v_votes vd). v = record_vote (participants d) (voter_id v) (reasoning v)"
    by (simp_all add: vote_data_of_def)
  from d have "participants d \<in> set (map participants (debates self'))" by simp
  then have mem: "participants d \<in> set (debate_pairs self)" unfolding parts .
  then have pin: "(fst (participants d), snd (participants d)) \<in> set (combinations2 ?keys)"
    by (simp add: debate_pairs_def)
  from set_combinations2 [OF pin] combinations2_distinct_pair [OF dist pin]
  have a: "fst (participants d) \<in> set ?keys" and b: "snd (participants d) \<in> set ?keys"
    and ab: "fst (participants d) \<noteq> snd (participants d)"
    by simp_all
  have "length (v_votes vd) = length (map voter_id (v_votes vd))" by simp
  also have "\<dots> = length ?keys - 2"
    unfolding voters using length_non_participants [OF dist a b ab] .
  finally have len: "length (v_votes vd) = length (agents self) - 2" by simp
  have win: "winner_id ` set (v_votes vd) \<subseteq> {fst (participants d), snd (participants d)}"
  proof
    fix x assume "x \<in> winner_id ` set (v_votes vd)"
    then obtain v where v: "v \<in> set (v_votes vd)" and x: "x = winner_id v" by auto
    from rec v have "v = record_vote (participants d) (voter_id v) (reasoning v)" by simp
    then have "winner_id v \<in> {fst (participants d), snd (participants d)}"
      using record_vote_winner [of "participants d" "voter_id v" "reasoning v"] by simp
    with x show "x \<in> {fst (participants d), snd (participants d)}" by simp
  qed
  from mem a b ab len win show ?thesis unfolding p by simp
qed

lemma phases_counts:
  assumes run: "run_phases e w self = Inr (self', w')"
    and d0: "debates self = []" and v0: "votes self = []"
  shows "length (debates self') = length (agents self) * (length (agents self) - 1) div 2 \<and>
         length (votes self') = length (debates self') \<and>
         map fst (votes self') = map debate_key [0..<length (debates self')] \<and>
         map fst (agents self') = map fst (agents self)"
proof -
  from run_phases_result [OF run d0 v0]
  have parts: "map participants (debates self') = debate_pairs self"
    and vk: "map fst (votes self') = map debate_key [0..<length (debates self')]"
    and ka: "map fst (agents self') = map fst (agents self)"
    by simp_all
  have "length (debates self') = length (map participants (debates self'))" by simp
  also have "\<dots> = length (agents self) * (length (agents self) - 1) div 2"
    unfolding parts by (simp add: debate_pairs_def length_combinations2)
  finally have l: "length (debates self') = length (agents self) * (length (agents self) - 1) div 2" .
  have "length (votes self') = length (map fst (votes self'))" by simp
  also have "\<dots> = length (debates self')" unfolding vk by simp
  finally show ?thesis using l vk ka by simp
qed

lemma three_agents_aggregate:
  assumes run: "run_phases e w self = Inr (self', w')"
    and dist: "distinct (map fst (agents self))"
    and d0: "debates self = []" and v0: "votes self = []"
    and n: "3 \<le> length (agents self)"
    and t: "agents t = agents self'" "votes t = votes self'"
      "total_duration (tournament_metrics t) \<noteq> None"
  shows "\<exists>res wr. calculate_results e' wc t = Inr (res, wr)"
proof -
  let ?wc0 = "map (\<lambda>aid. (aid, 0::int)) (map fst (agents t))"
  from phases_counts [OF run d0 v0] have ka: "map fst (agents self') = map fst (agents self)"
    by simp
  have keys0: "fst ` set ?wc0 = set (map fst (agents self))"
    using t(1) ka by (simp add: image_image)
  have "\<forall>vd \<in> snd ` set (votes t). v_votes vd \<noteq> [] \<and>
          winner_id ` set (v_votes vd) \<subseteq> fst ` set ?wc0"
  proof
    fix vd assume "vd \<in> snd ` set (votes t)"
    then have vd: "vd \<in> snd ` set (votes self')" using t(2) by simp
    note f = phases_vote_data [OF run dist d0 v0 vd]
    from f n have "length (v_votes vd) \<noteq> 0" by simp
    moreover from f
    have "{fst (v_participants vd), snd (v_participants vd)} \<subseteq> set (map fst (agents self))"
      and "winner_id ` set (v_votes vd) \<subseteq> {fst (v_participants vd), snd (v_participants vd)}"
      by simp_all
    then have "winner_id ` set (v_votes vd) \<subseteq> set (map fst (agents self))"
      by (rule order_trans [rotated])
    ultimately show "v_votes vd \<noteq> [] \<and> winner_id ` set (v_votes vd) \<subseteq> fst ` set ?wc0"
      unfolding keys0 by simp
  qed
  from results_loop_answers [OF this] obtain wc' where
    "results_loop (votes t) ?wc0 = Inr wc'" by blast
  from calculate_results_answers [OF this t(3), where e = e' and w = wc]
  show ?thesis by blast
qed

lemma two_agents_no_votes:
  assumes run: "run_phases e w self = Inr (self', w')"
    and dist: "distinct (map fst (agents self))"
    and d0: "debates self = []" and v0: "votes self = []"
    and n: "length (agents self) = 2"
  shows "length (debates self') = 1 \<and>
         (\<exists>vd. votes self' = [(debate_key 0, vd)] \<and> v_votes vd = [])"
proof -
  from phases_counts [OF run d0 v0] n
  have ld: "length (debates self') = 1" and lv: "length (votes self') = 1"
    and vk: "map fst (votes self') = map debate_key [0..<length (debates self')]"
    by simp_all
  from lv obtain x where x: "votes self' = [x]"
    by (cases "votes self'") auto
  obtain k vd where kv: "x = (k, vd)" by (cases x)
  from vk x kv ld have k: "k = debate_key 0" by simp
  have "vd \<in> snd ` set (votes self')" using x kv by simp
  from phases_vote_data [OF run dist d0 v0 this] n have "v_votes vd = []" by simp
  with ld x kv k show ?thesis by simp
qed

lemma two_agents_aggregate:
  assumes run: "run_phases e w self = Inr (self', w')"
    and dist: "distinct (map fst (agents self))"
    and d0: "debates self = []" and v0: "votes self = []"
    and n: "length (agents self) = 2"
    and t: "votes t = votes self'"
  shows "calculate_results e' wc t = Inl ValueError"
proof -
  from two_agents_no_votes [OF run dist d0 v0 n] obtain vd where
    "votes self' = [(debate_key 0, vd)]" and "v_votes vd = []"
    by blast
  then have "results_loop (votes t) (map (\<lambda>aid. (aid, 0)) (map fst (agents t))) = Inl ValueError"
    using t by (simp add: debate_winner_empty)
  then show ?thesis by (rule calculate_results_fails)
qed

lemma calculate_results_needs_votes:
  assumes "calculate_results e w t = Inr x" and "vd \<in> snd ` set (votes t)"
  shows "v_votes vd \<noteq> []"
proof
  assume "v_votes vd = []"
  from results_loop_empty_votes [OF assms(2) this]
  obtain err where
    "results_loop (votes t) (map (\<lambda>aid. (aid, 0)) (map fst (agents t))) = Inl err"
    by blast
  from calculate_results_fails [OF this, of e w] assms(1) show False by simp
qed

lemma const_env_answers: "backend_answers (const_env reply)"
  by (simp add: backend_answers_def const_env_def)

lemma init_fresh:
  "DebateTournament_init (int n) models topic label = Inr self \<Longrightarrow>
   distinct (map fst (agents self)) \<and> length (agents self) = n \<and>
   debates self = [] \<and> votes self = []"
proof -
  assume init: "DebateTournament_init (int n) models topic label = Inr self"
  from DebateTournament_init_result [OF init]
  have k: "map fst (agents self) = map agent_key [0..<n]"
    and d: "debates self = []" and v: "votes self = []"
    by simp_all
  have "distinct (map fst (agents self))" unfolding k by (rule distinct_agent_keys)
  moreover have "length (map fst (agents self)) = n" unfolding k by simp
  ultimately show ?thesis using d v by simp
qed

lemma init_default: "\<exists>self. DebateTournament_init n None None label = Inr self"
  by (simp add: DebateTournament_init_def cycle_models_def)

text \<open>
  C9, as the code has it. Aggregation returns only for a tournament all of whose
  debates have a vote. After the three phases of a new tournament of \<open>n\<close> agents, every
  debate has a vote exactly when \<open>n\<close> is not 2, and exactly then \<open>calculate_results\<close>
  returns: with three agents or more every debate has \<open>n - 2\<close> votes, at least one; with
  one agent or none there is no debate. With two agents there is one debate, its vote
  list and so its tally are empty, \<open>max\<close> raises \<open>ValueError\<close>, and so do
  \<open>calculate_results\<close> and, when the backend answers every call, \<open>run_tournament\<close>,
  which returns for no backend.
\<close>

theorem aggregation_needs_votes:
  assumes run: "run_phases e w self = Inr (self', w')"
    and dist: "distinct (map fst (agents self))"
    and d0: "debates self = []" and v0: "votes self = []"
  shows "((\<forall>vd \<in> snd ` set (votes self'). v_votes vd \<noteq> []) \<longleftrightarrow> length (agents self) \<noteq> 2) \<and>
         ((\<exists>res wr. calculate_results e wc (set_end t0 t1 self') = Inr (res, wr)) \<longleftrightarrow>
            length (agents self) \<noteq> 2) \<and>
         (3 \<le> length (agents self) \<longrightarrow>
            debates self' \<noteq> [] \<and>
            (\<forall>vd \<in> snd ` set (votes self'). length (v_votes vd) = length (agents self) - 2)) \<and>
         (length (agents self) \<le> 1 \<longrightarrow> debates self' = [] \<and> votes self' = []) \<and>
         (length (agents self) = 2 \<longrightarrow>
            length (debates self') = 1 \<and>
            (\<exists>vd. votes self' = [(debate_key 0, vd)] \<and> v_votes vd = [] \<and>
                  tally (map winner_id (v_votes vd)) = [] \<and>
                  debate_winner (map winner_id (v_votes vd)) = Inl ValueError) \<and>
            calculate_results e wc (set_end t0 t1 self') = Inl ValueError \<and>
            (\<forall>y. run_tournament e w self \<noteq> Inr y) \<and>
            (backend_answers e \<longrightarrow> run_tournament e w self = Inl ValueError)) \<and>
         (\<forall>t x. calculate_results e wc t = Inr x \<longrightarrow>
            (\<forall>vd \<in> snd ` set (votes t). v_votes vd \<noteq> []))"
proof -
  let ?n = "length (agents self)"
  let ?t = "set_end t0 t1 self'"
  note counts = phases_counts [OF run d0 v0]
  have three: "\<exists>res wr. calculate_results e wc ?t = Inr (res, wr)" if "3 \<le> ?n"
    using three_agents_aggregate [OF run dist d0 v0 that, of ?t e wc] by simp
  have three_len: "\<forall>vd \<in> snd ` set (votes self'). length (v_votes vd) = ?n - 2"
  proof
    fix vd assume "vd \<in> snd ` set (votes self')"
    from phases_vote_data [OF run dist d0 v0 this]
    show "length (v_votes vd) = ?n - 2" by simp
  qed
  have three_votes: "\<forall>vd \<in> snd ` set (votes self'). v_votes vd \<noteq> []" if n3: "3 \<le> ?n"
  proof
    fix vd assume "vd \<in> snd ` set (votes self')"
    with three_len have "length (v_votes vd) = ?n - 2" by (rule bspec)
    with n3 have "length (v_votes vd) \<noteq> 0" by simp
    then show "v_votes vd \<noteq> []" by simp
  qed
  have three_debates: "debates self' \<noteq> []" if n3: "3 \<le> ?n"
  proof -
    from n3 have "1 * 2 \<le> ?n * (?n - 1)" by (intro mult_le_mono) simp_all
    then have "1 \<le> ?n * (?n - 1) div 2" by simp
    with counts have "1 \<le> length (debates self')" by simp
    then show ?thesis by auto
  qed
  have low: "debates self' = [] \<and> votes self' = []" if n1: "?n \<le> 1"
  proof -
    from n1 have "?n * (?n - 1) div 2 = 0" by (cases "?n") auto
    with counts have "length (debates self') = 0" "length (votes self') = 0" by simp_all
    then show ?thesis by simp
  qed
  have low_agg: "\<exists>res wr. calculate_results e wc ?t = Inr (res, wr)" if n1: "?n \<le> 1"
  proof -
    from low [OF n1] have "results_loop (votes ?t) (map (\<lambda>aid. (aid, 0)) (map fst (agents ?t)))
        = Inr (map (\<lambda>aid. (aid, 0)) (map fst (agents ?t)))"
      by simp
    from calculate_results_answers [OF this, where e = e and w = wc] show ?thesis by auto
  qed
  have two: "length (debates self') = 1 \<and>
            (\<exists>vd. votes self' = [(debate_key 0, vd)] \<and> v_votes vd = [] \<and>
                  tally (map winner_id (v_votes vd)) = [] \<and>
                  debate_winner (map winner_id (v_votes vd)) = Inl ValueError) \<and>
            calculate_results e wc ?t = Inl ValueError \<and>
            (\<forall>y. run_tournament e w self \<noteq> Inr y) \<and>
            (backend_answers e \<longrightarrow> run_tournament e w self = Inl ValueError)"
    if n: "?n = 2"
  proof -
    from two_agents_no_votes [OF run dist d0 v0 n]
    have a: "length (debates self') = 1"
      and b: "\<exists>vd. votes self' = [(debate_key 0, vd)] \<and> v_votes vd = [] \<and>
                  tally (map winner_id (v_votes vd)) = [] \<and>
                  debate_winner (map winner_id (v_votes vd)) = Inl ValueError"
      by (auto simp: tally_def debate_winner_empty)
    have c: "calculate_results e wc ?t = Inl ValueError"
      using two_agents_aggregate [OF run dist d0 v0 n, of ?t e wc] by simp
    have start: "distinct (map fst (agents (set_start s self)))"
      "debates (set_start s self) = []" "votes (set_start s self) = []"
      "length (agents (set_start s self)) = 2" for s
      using dist d0 v0 n by simp_all
    have d: "run_tournament e w self \<noteq> Inr y" for y
    proof
      assume r: "run_tournament e w self = Inr y"
      obtain res s' wr where y: "y = (res, s', wr)" by (cases y)
      from run_tournament_unfold [OF r [unfolded y]] obtain s0 u0 t u1 s1 u2 where
        ph: "run_phases e u0 (set_start s0 self) = Inr (t, u1)"
        and s: "s' = set_end s0 s1 t"
        and cr: "calculate_results e u2 s' = Inr (res, wr)"
        by blast
      from two_agents_aggregate [OF ph start, of s' e u2] s cr show False by simp
    qed
    have f: "run_tournament e w self = Inl ValueError" if ans: "backend_answers e"
    proof -
      obtain s0 u0 where c0: "clock e w = (s0, u0)" by (cases "clock e w")
      from run_phases_answers [OF ans start(2)]
      obtain t u1 where ph: "run_phases e u0 (set_start s0 self) = Inr (t, u1)" by blast
      obtain s1 u2 where c1: "clock e u1 = (s1, u2)" by (cases "clock e u1")
      from two_agents_aggregate [OF ph start, of "set_end s0 s1 t" e u2]
      have "calculate_results e u2 (set_end s0 s1 t) = Inl ValueError" by simp
      with c0 ph c1 show ?thesis by (simp add: run_tournament_def)
    qed
    show ?thesis
    proof (intro conjI allI impI)
      show "length (debates self') = 1" by (rule a)
      show "\<exists>vd. votes self' = [(debate_key 0, vd)] \<and> v_votes vd = [] \<and>
                  tally (map winner_id (v_votes vd)) = [] \<and>
                  debate_winner (map winner_id (v_votes vd)) = Inl ValueError" by (rule b)
      show "calculate_results e wc ?t = Inl ValueError" by (rule c)
      show "run_tournament e w self \<noteq> Inr y" for y by (rule d)
      show "run_tournament e w self = Inl ValueError" if "backend_answers e"
        using that by (rule f)
    qed
  qed
  have not_two: "\<not> (\<forall>vd \<in> snd ` set (votes self'). v_votes vd \<noteq> [])" if n: "?n = 2"
  proof -
    from two_agents_no_votes [OF run dist d0 v0 n]
    obtain vd where "votes self' = [(debate_key 0, vd)]" and "v_votes vd = []"
      by (elim conjE exE)
    then show ?thesis by simp
  qed
  have cases: "?n \<le> 1 \<or> ?n = 2 \<or> 3 \<le> ?n" by arith
  have one: "(\<forall>vd \<in> snd ` set (votes self'). v_votes vd \<noteq> []) \<longleftrightarrow> ?n \<noteq> 2"
  proof
    assume all: "\<forall>vd \<in> snd ` set (votes self'). v_votes vd \<noteq> []"
    show "?n \<noteq> 2"
    proof
      assume "?n = 2"
      from not_two [OF this] all show False by simp
    qed
  next
    assume ne: "?n \<noteq> 2"
    with cases have "?n \<le> 1 \<or> 3 \<le> ?n" by simp
    then show "\<forall>vd \<in> snd ` set (votes self'). v_votes vd \<noteq> []"
    proof
      assume "?n \<le> 1"
      from low [OF this] show ?thesis by simp
    next
      assume "3 \<le> ?n"
      then show ?thesis by (rule three_votes)
    qed
  qed
  have agg: "(\<exists>res wr. calculate_results e wc ?t = Inr (res, wr)) \<longleftrightarrow> ?n \<noteq> 2"
  proof
    assume ex: "\<exists>res wr. calculate_results e wc ?t = Inr (res, wr)"
    show "?n \<noteq> 2"
    proof
      assume "?n = 2"
      from two [OF this] have "calculate_results e wc ?t = Inl ValueError" by (elim conjE)
      with ex show False by simp
    qed
  next
    assume ne: "?n \<noteq> 2"
    with cases have "?n \<le> 1 \<or> 3 \<le> ?n" by simp
    then show "\<exists>res wr. calculate_results e wc ?t = Inr (res, wr)"
    proof
      assume "?n \<le> 1" then show ?thesis by (rule low_agg)
    next
      assume "3 \<le> ?n" then show ?thesis by (rule three)
    qed
  qed
  have only: "\<forall>t x. calculate_results e wc t = Inr x \<longrightarrow>
            (\<forall>vd \<in> snd ` set (votes t). v_votes vd \<noteq> [])"
  proof (intro allI impI ballI)
    fix t x vd
    assume "calculate_results e wc t = Inr x" and "vd \<in> snd ` set (votes t)"
    then show "v_votes vd \<noteq> []" by (rule calculate_results_needs_votes)
  qed
  show ?thesis
  proof (intro conjI)
    show "(\<forall>vd \<in> snd ` set (votes self'). v_votes vd \<noteq> []) \<longleftrightarrow> ?n \<noteq> 2" by (rule one)
    show "(\<exists>res wr. calculate_results e wc ?t = Inr (res, wr)) \<longleftrightarrow> ?n \<noteq> 2" by (rule agg)
    show "3 \<le> ?n \<longrightarrow> debates self' \<noteq> [] \<and>
            (\<forall>vd \<in> snd ` set (votes self'). length (v_votes vd) = ?n - 2)"
      using three_debates three_len by simp
    show "?n \<le> 1 \<longrightarrow> debates self' = [] \<and> votes self' = []"
      using low by (rule impI)
    show "?n = 2 \<longrightarrow>
            length (debates self') = 1 \<and>
            (\<exists>vd. votes self' = [(debate_key 0, vd)] \<and> v_votes vd = [] \<and>
                  tally (map winner_id (v_votes vd)) = [] \<and>
                  debate_winner (map winner_id (v_votes vd)) = Inl ValueError) \<and>
            calculate_results e wc ?t = Inl ValueError \<and>
            (\<forall>y. run_tournament e w self \<noteq> Inr y) \<and>
            (backend_answers e \<longrightarrow> run_tournament e w self = Inl ValueError)"
      using two by (rule impI)
    show "\<forall>t x. calculate_results e wc t = Inr x \<longrightarrow>
            (\<forall>vd \<in> snd ` set (votes t). v_votes vd \<noteq> [])" by (rule only)
  qed
qed

theorem aggregation_needs_votes_witness:
  "\<exists>s1 s1' s2 s2' s3 s3'.
     DebateTournament_init 1 None None ''position'' = Inr s1 \<and>
     run_phases (const_env ''A'') () s1 = Inr (s1', ()) \<and>
     distinct (map fst (agents s1)) \<and> debates s1 = [] \<and> votes s1 = [] \<and>
     length (agents s1) = 1 \<and> debates s1' = [] \<and>
     (\<exists>res wr. calculate_results (const_env ''A'') () (set_end 0 1 s1') = Inr (res, wr)) \<and>
     DebateTournament_init 2 None None ''position'' = Inr s2 \<and>
     run_phases (const_env ''A'') () s2 = Inr (s2', ()) \<and>
     distinct (map fst (agents s2)) \<and> debates s2 = [] \<and> votes s2 = [] \<and>
     length (agents s2) = 2 \<and>
     calculate_results (const_env ''A'') () (set_end 0 1 s2') = Inl ValueError \<and>
     run_tournament (const_env ''A'') () s2 = Inl ValueError \<and>
     DebateTournament_init 3 None None ''position'' = Inr s3 \<and>
     run_phases (const_env ''A'') () s3 = Inr (s3', ()) \<and>
     distinct (map fst (agents s3)) \<and> debates s3 = [] \<and> votes s3 = [] \<and>
     length (agents s3) = 3 \<and> debates s3' \<noteq> [] \<and>
     (\<exists>res wr. calculate_results (const_env ''A'') () (set_end 0 1 s3') = Inr (res, wr))"
proof -
  let ?e = "const_env ''A''"
  from init_default obtain s1 where i1: "DebateTournament_init (int 1) None None ''position'' = Inr s1"
    by auto
  from init_default obtain s2 where i2: "DebateTournament_init (int 2) None None ''position'' = Inr s2"
    by auto
  from init_default obtain s3 where i3: "DebateTournament_init (int 3) None None ''position'' = Inr s3"
    by auto
  from init_fresh [OF i1] have f1: "distinct (map fst (agents s1))" "length (agents s1) = 1"
    "debates s1 = []" "votes s1 = []" by simp_all
  from init_fresh [OF i2] have f2: "distinct (map fst (agents s2))" "length (agents s2) = 2"
    "debates s2 = []" "votes s2 = []" by simp_all
  from init_fresh [OF i3] have f3: "distinct (map fst (agents s3))" "length (agents s3) = 3"
    "debates s3 = []" "votes s3 = []" by simp_all
  from run_phases_answers [OF const_env_answers f1(3)]
  obtain s1' where r1: "run_phases ?e () s1 = Inr (s1', ())" by auto
  from run_phases_answers [OF const_env_answers f2(3)]
  obtain s2' where r2: "run_phases ?e () s2 = Inr (s2', ())" by auto
  from run_phases_answers [OF const_env_answers f3(3)]
  obtain s3' where r3: "run_phases ?e () s3 = Inr (s3', ())" by auto
  note t1 = aggregation_needs_votes [OF r1 f1(1) f1(3) f1(4),
      where wc = "()" and ?t0.0 = 0 and ?t1.0 = 1]
  note t2 = aggregation_needs_votes [OF r2 f2(1) f2(3) f2(4),
      where wc = "()" and ?t0.0 = 0 and ?t1.0 = 1]
  note t3 = aggregation_needs_votes [OF r3 f3(1) f3(3) f3(4),
      where wc = "()" and ?t0.0 = 0 and ?t1.0 = 1]
  from t1 [THEN conjunct2, THEN conjunct1] f1(2)
  have one: "\<exists>res wr. calculate_results ?e () (set_end 0 1 s1') = Inr (res, wr)"
    by simp
  from t1 [THEN conjunct2, THEN conjunct2, THEN conjunct2, THEN conjunct1] f1(2)
  have one_d: "debates s1' = []" by simp
  from t2 [THEN conjunct2, THEN conjunct2, THEN conjunct2, THEN conjunct2, THEN conjunct1] f2(2)
  have two: "calculate_results ?e () (set_end 0 1 s2') = Inl ValueError"
    "backend_answers ?e \<longrightarrow> run_tournament ?e () s2 = Inl ValueError"
    by simp_all
  from two(2) const_env_answers have rt: "run_tournament ?e () s2 = Inl ValueError" by simp
  from t3 [THEN conjunct2, THEN conjunct1] f3(2)
  have three: "\<exists>res wr. calculate_results ?e () (set_end 0 1 s3') = Inr (res, wr)"
    by simp
  from t3 [THEN conjunct2, THEN conjunct2, THEN conjunct1] f3(2)
  have three_d: "debates s3' \<noteq> []" by simp
  show ?thesis
    apply (rule exI [where x = s1])
    apply (rule exI [where x = s1'])
    apply (rule exI [where x = s2])
    apply (rule exI [where x = s2'])
    apply (rule exI [where x = s3])
    apply (rule exI [where x = s3'])
    using i1 i2 i3 f1 f2 f3 r1 r2 r3 one one_d two(1) rt three three_d apply simp
    done
qed

text \<open>
  The claim that every debate has a vote, and aggregation returns, exactly when there
  are at least three agents fails for one agent: the run returns, with no debate and no
  votes.
\<close>

theorem aggregation_one_agent_counterexample:
  "length (agents (projr (DebateTournament_init 1 None None ''position''))) = 1 \<and>
   \<not> isl (run_tournament (const_env ''A'') ()
            (projr (DebateTournament_init 1 None None ''position''))) \<and>
   debates (fst (snd (projr (run_tournament (const_env ''A'') ()
            (projr (DebateTournament_init 1 None None ''position'')))))) = [] \<and>
   votes (fst (snd (projr (run_tournament (const_env ''A'') ()
            (projr (DebateTournament_init 1 None None ''position'')))))) = []"
  by code_simp

section \<open>The scenario of three agents\<close>

lemma single_vote_winner:
  assumes "length vs = 1" and "\<forall>v \<in> set vs. winner_id v = a"
  shows "map winner_id vs = [a]"
proof -
  from assms(1) obtain v where "vs = [v]" by (cases vs) auto
  with assms(2) show ?thesis by simp
qed

lemma debate_winner_single: "debate_winner [a] = Inr a"
  by (simp add: debate_winner_def max_key_def tally_def tally_step_def)

text \<open>
  C7. A tournament constructed with 3 agents registers \<open>agent_0\<close>, \<open>agent_1\<close>, \<open>agent_2\<close>
  in this order. With a backend that answers every call, \<open>run_tournament\<close> returns; its
  debates are \<open>(agent_0, agent_1)\<close>, \<open>(agent_0, agent_2)\<close>, \<open>(agent_1, agent_2)\<close> in this
  order; and when, under this backend, every vote names the first (the earlier
  registered) participant of its debate as the winner, the wins are
  \<open>{agent_0: 2, agent_1: 1, agent_2: 0}\<close> and the ranking lists them in this order.
\<close>

theorem three_agent_scenario:
  assumes init: "DebateTournament_init 3 models topic label = Inr self"
    and ans: "backend_answers e"
  shows "\<exists>res self' w'.
           run_tournament e w self = Inr (res, self', w') \<and>
           map fst (agents self') = [''agent_0'', ''agent_1'', ''agent_2''] \<and>
           map participants (debates self') =
             [(''agent_0'', ''agent_1''), (''agent_0'', ''agent_2''), (''agent_1'', ''agent_2'')] \<and>
           ((\<forall>vd \<in> snd ` set (votes self'). \<forall>v \<in> set (v_votes vd).
               winner_id v = fst (v_participants vd)) \<longrightarrow>
            win_counts res = [(''agent_0'', 2), (''agent_1'', 1), (''agent_2'', 0)] \<and>
            rankings res = [(''agent_0'', 2), (''agent_1'', 1), (''agent_2'', 0)])"
proof -
  let ?pairs = "[(''agent_0'', ''agent_1''), (''agent_0'', ''agent_2''), (''agent_1'', ''agent_2'')]"
  let ?keys = "[''agent_0'', ''agent_1'', ''agent_2'']"
  have u: "[0..<3] = [0, 1, 2]" by (simp add: upt_rec)
  from init have init': "DebateTournament_init (int 3) models topic label = Inr self" by simp
  from DebateTournament_init_result [OF init]
  have keys: "map fst (agents self) = ?keys"
    by (simp add: u agent_key_def str_nat_small digit_chars_def)
  from init_fresh [OF init']
  have dist: "distinct (map fst (agents self))" and len: "length (agents self) = 3"
    and d0: "debates self = []" and v0: "votes self = []"
    by simp_all
  obtain s0 u0 where c0: "clock e w = (s0, u0)" by (cases "clock e w")
  let ?start = "set_start s0 self"
  have sdist: "distinct (map fst (agents ?start))" and sd0: "debates ?start = []"
    and sv0: "votes ?start = []" and sn: "3 \<le> length (agents ?start)"
    using dist d0 v0 len by simp_all
  from run_phases_answers [OF ans sd0]
  obtain t u1 where ph: "run_phases e u0 ?start = Inr (t, u1)" by blast
  obtain s1 u2 where c1: "clock e u1 = (s1, u2)" by (cases "clock e u1")
  let ?fin = "set_end s0 s1 t"
  from three_agents_aggregate [OF ph sdist sd0 sv0 sn, of ?fin e u2]
  obtain res wr where cr: "calculate_results e u2 ?fin = Inr (res, wr)" by auto
  have rt: "run_tournament e w self = Inr (res, ?fin, wr)"
    using c0 ph c1 cr by (simp add: run_tournament_def)
  from run_phases_result [OF ph sd0 sv0]
  have ka: "map fst (agents t) = ?keys"
    and parts: "map participants (debates t) = ?pairs"
    and all2: "list_all2 (vote_data_of (map fst (agents ?start))) (debates t) (map snd (votes t))"
    using keys by (simp_all add: debate_pairs_def)
  have wins: "win_counts res = [(''agent_0'', 2), (''agent_1'', 1), (''agent_2'', 0)] \<and>
              rankings res = [(''agent_0'', 2), (''agent_1'', 1), (''agent_2'', 0)]"
    if H: "\<forall>vd \<in> snd ` set (votes ?fin). \<forall>v \<in> set (v_votes vd).
               winner_id v = fst (v_participants vd)"
  proof -
    from phases_counts [OF ph sd0 sv0] len
    have lv: "length (votes t) = 3" and ld: "length (debates t) = 3" by simp_all
    from lv obtain x0 x1 x2 where vt: "votes t = [x0, x1, x2]"
      by (cases "votes t"; cases "tl (votes t)"; cases "tl (tl (votes t))") auto
    obtain k0 vd0 where x0: "x0 = (k0, vd0)" by (cases x0)
    obtain k1 vd1 where x1: "x1 = (k1, vd1)" by (cases x1)
    obtain k2 vd2 where x2: "x2 = (k2, vd2)" by (cases x2)
    from ld obtain e0 e1 e2 where dt: "debates t = [e0, e1, e2]"
      by (cases "debates t"; cases "tl (debates t)"; cases "tl (tl (debates t))") auto
    from parts dt have pe: "participants e0 = (''agent_0'', ''agent_1'')"
      "participants e1 = (''agent_0'', ''agent_2'')" "participants e2 = (''agent_1'', ''agent_2'')"
      by simp_all
    from all2 vt dt x0 x1 x2 pe
    have pv: "v_participants vd0 = (''agent_0'', ''agent_1'')"
      "v_participants vd1 = (''agent_0'', ''agent_2'')"
      "v_participants vd2 = (''agent_1'', ''agent_2'')"
      by (simp_all add: vote_data_of_def)
    have mem: "vd0 \<in> snd ` set (votes t)" "vd1 \<in> snd ` set (votes t)"
      "vd2 \<in> snd ` set (votes t)"
      using vt x0 x1 x2 by simp_all
    have l1: "length (v_votes vd) = 1" if "vd \<in> snd ` set (votes t)" for vd
      using phases_vote_data [OF ph sdist sd0 sv0 that] len by simp
    have w0: "map winner_id (v_votes vd0) = [''agent_0'']"
      using single_vote_winner [OF l1 [OF mem(1)], of "''agent_0''"] H mem(1) pv(1) by simp
    have w1: "map winner_id (v_votes vd1) = [''agent_0'']"
      using single_vote_winner [OF l1 [OF mem(2)], of "''agent_0''"] H mem(2) pv(2) by simp
    have w2: "map winner_id (v_votes vd2) = [''agent_1'']"
      using single_vote_winner [OF l1 [OF mem(3)], of "''agent_1''"] H mem(3) pv(3) by simp
    have "results_loop (votes ?fin) (map (\<lambda>aid. (aid, 0)) (map fst (agents ?fin))) =
            Inr [(''agent_0'', 2), (''agent_1'', 1), (''agent_2'', 0)]"
      by (simp add: vt x0 x1 x2 ka w0 w1 w2 debate_winner_single)
    with calculate_results_win_counts [OF cr]
    have wc: "win_counts res = [(''agent_0'', 2), (''agent_1'', 1), (''agent_2'', 0)]"
      and rk: "rankings res = rank (win_counts res)"
      by simp_all
    from rk wc have "rankings res = [(''agent_0'', 2), (''agent_1'', 1), (''agent_2'', 0)]"
      by (simp add: rank_def)
    with wc show ?thesis by simp
  qed
  show ?thesis
  proof (intro exI conjI impI)
    show "run_tournament e w self = Inr (res, ?fin, wr)" by (rule rt)
    show "map fst (agents ?fin) = ?keys" using ka by simp
    show "map participants (debates ?fin) = ?pairs" using parts by simp
    assume H: "\<forall>vd \<in> snd ` set (votes ?fin). \<forall>v \<in> set (v_votes vd).
               winner_id v = fst (v_participants vd)"
    from wins [OF H]
    show "win_counts res = [(''agent_0'', 2), (''agent_1'', 1), (''agent_2'', 0)]"
      and "rankings res = [(''agent_0'', 2), (''agent_1'', 1), (''agent_2'', 0)]"
      by simp_all
  qed
qed

lemma example_votes:
  "case DebateTournament_init 3 None None ''position'' of
     Inl _ \<Rightarrow> False
   | Inr self \<Rightarrow>
       (case run_tournament (const_env ''A'') () self of
          Inl _ \<Rightarrow> False
        | Inr (res, self', w') \<Rightarrow>
            list_all (\<lambda>vd. list_all (\<lambda>v. winner_id v = fst (v_participants vd)) (v_votes vd))
              (map snd (votes self')))"
  by code_simp

theorem three_agent_scenario_witness:
  "\<exists>self res self'.
     DebateTournament_init 3 None None ''position'' = Inr self \<and>
     backend_answers (const_env ''A'') \<and>
     run_tournament (const_env ''A'') () self = Inr (res, self', ()) \<and>
     list_all (\<lambda>vd. list_all (\<lambda>v. winner_id v = fst (v_participants vd)) (v_votes vd))
       (map snd (votes self')) \<and>
     map participants (debates self') =
       [(''agent_0'', ''agent_1''), (''agent_0'', ''agent_2''), (''agent_1'', ''agent_2'')] \<and>
     win_counts res = [(''agent_0'', 2), (''agent_1'', 1), (''agent_2'', 0)] \<and>
     rankings res = [(''agent_0'', 2), (''agent_1'', 1), (''agent_2'', 0)]"
proof -
  let ?e = "const_env ''A''"
  from init_default obtain self where
    init: "DebateTournament_init 3 None None ''position'' = Inr self"
    by blast
  from three_agent_scenario [OF init const_env_answers [of "''A''"], where w = "()"]
  obtain res self' w' where c:
    "run_tournament ?e () self = Inr (res, self', w') \<and>
     map fst (agents self') = [''agent_0'', ''agent_1'', ''agent_2''] \<and>
     map participants (debates self') =
       [(''agent_0'', ''agent_1''), (''agent_0'', ''agent_2''), (''agent_1'', ''agent_2'')] \<and>
     ((\<forall>vd \<in> snd ` set (votes self'). \<forall>v \<in> set (v_votes vd).
               winner_id v = fst (v_participants vd)) \<longrightarrow>
            win_counts res = [(''agent_0'', 2), (''agent_1'', 1), (''agent_2'', 0)] \<and>
            rankings res = [(''agent_0'', 2), (''agent_1'', 1), (''agent_2'', 0)])"
    by (elim exE) (rule that)
  note run0 = c [THEN conjunct1]
  note parts = c [THEN conjunct2, THEN conjunct2, THEN conjunct1]
  note imp = c [THEN conjunct2, THEN conjunct2, THEN conjunct2]
  from run0 have run: "run_tournament ?e () self = Inr (res, self', ())" by simp
  from example_votes init run
  have all: "list_all (\<lambda>vd. list_all (\<lambda>v. winner_id v = fst (v_participants vd)) (v_votes vd))
       (map snd (votes self'))"
    by simp
  then have "\<forall>vd \<in> snd ` set (votes self'). \<forall>v \<in> set (v_votes vd).
               winner_id v = fst (v_participants vd)"
    by (simp add: list_all_iff)
  with imp have wins: "win_counts res = [(''agent_0'', 2), (''agent_1'', 1), (''agent_2'', 0)]"
    "rankings res = [(''agent_0'', 2), (''agent_1'', 1), (''agent_2'', 0)]"
    by simp_all
  show ?thesis
    apply (rule exI [where x = self])
    apply (rule exI [where x = res])
    apply (rule exI [where x = self'])
    using init const_env_answers [of "''A''"] run all parts wins apply simp
    done
qed

section \<open>The recorded vote is the parse of the backend's reply\<close>

lemma replies_logged_generate_response:
  "generate_response (replies_logged e) (w, lg) self prompt h =
     (case generate_response e w self prompt h of
        (r, self', w') \<Rightarrow> (r, self', (w', lg @ [r])))"
  by (simp add: generate_response_def replies_logged_def Let_def split: prod.splits sum.splits)

lemma record_vote_reasoning [simp]: "reasoning (record_vote ps aid r) = r"
  by (simp add: record_vote_def Let_def)

lemma replies_logged_voting_loop:
  "voting_loop (replies_logged e) self d i ags (w, lg) =
     (case voting_loop e self d i ags w of
        Inl err \<Rightarrow> Inl err
      | Inr (ags', vs, w') \<Rightarrow> Inr (ags', vs, (w', lg @ map (\<lambda>v. Inr (reasoning v)) vs)))"
proof (induction ags arbitrary: w lg)
  case Nil
  show ?case by simp
next
  case (Cons x ags)
  obtain aid agent where x: "x = (aid, agent)" by (cases x)
  show ?case
    unfolding x
    by (simp add: replies_logged_generate_response Cons.IH
        split: sum.splits prod.splits)
qed

lemma replies_logged_phase_3_loop:
  "map_sum id (\<lambda>(s, wl). (s, fst wl)) (phase_3_loop (replies_logged e) i ds self (w, lg)) =
   phase_3_loop e i ds self w"
proof (induction ds arbitrary: i self w lg)
  case Nil
  show ?case by simp
next
  case (Cons d ds)
  show ?case
  proof (cases "voting_loop e self d i (agents self) w")
    case (Inl err)
    then show ?thesis by (simp add: replies_logged_voting_loop)
  next
    case (Inr y)
    obtain ags vs w1 where y: "y = (ags, vs, w1)" by (cases y)
    from Inr y Cons.IH [of "Suc i" _ w1 "lg @ map (\<lambda>v. Inr (reasoning v)) vs"]
    show ?thesis by (simp add: replies_logged_voting_loop)
  qed
qed

lemma replies_logged_clock:
  "clock (replies_logged e) (w, lg) = (fst (clock e w), (snd (clock e w), lg))"
  by (simp add: replies_logged_def split: prod.splits)

lemma replies_logged_run_phase_3_voting:
  "map_sum id (\<lambda>(s, wl). (s, fst wl)) (run_phase_3_voting (replies_logged e) (w, lg) self) =
   run_phase_3_voting e w self"
proof -
  obtain t0 w1 where c0: "clock e w = (t0, w1)" by (cases "clock e w")
  note l = replies_logged_phase_3_loop [of e 0 "debates self" self w1 lg]
  show ?thesis
  proof (cases "phase_3_loop (replies_logged e) 0 (debates self) self (w1, lg)")
    case (Inl err)
    with l have "phase_3_loop e 0 (debates self) self w1 = Inl err" by simp
    with Inl c0 show ?thesis
      by (simp add: run_phase_3_voting_def replies_logged_clock)
  next
    case (Inr y)
    obtain s w2 lg2 where y: "y = (s, (w2, lg2))" by (cases y) auto
    obtain t1 w3 where c1: "clock e w2 = (t1, w3)" by (cases "clock e w2")
    from Inr y l have "phase_3_loop e 0 (debates self) self w1 = Inr (s, w2)" by simp
    with Inr y c0 c1 show ?thesis
      by (simp add: run_phase_3_voting_def replies_logged_clock)
  qed
qed

lemma phase_3_loop_log:
  "phase_3_loop (replies_logged e) i ds self (w, lg) = Inr (self', wl) \<Longrightarrow>
   map fst (votes self) = map debate_key [0..<i] \<Longrightarrow>
   \<exists>new. votes self' = votes self @ new \<and>
     snd wl = lg @ map Inr (concat (map (\<lambda>x. map reasoning (v_votes (snd x))) new))"
proof (induction ds arbitrary: i self w lg)
  case Nil
  then show ?case by auto
next
  case (Cons d ds)
  let ?e = "replies_logged e"
  from Cons.prems(1) obtain ags vs w1 where
    vl: "voting_loop e self d i (agents self) w = Inr (ags, vs, w1)"
    and r: "phase_3_loop ?e (Suc i) ds
              (self\<lparr>agents := ags,
                    votes := AList.update (debate_key i)
                      \<lparr>v_participants = participants d, v_votes = vs\<rparr> (votes self)\<rparr>)
              (w1, lg @ map (\<lambda>v. Inr (reasoning v)) vs)
            = Inr (self', wl)"
    by (auto simp: replies_logged_voting_loop split: prod.splits sum.splits)
  define vd where "vd = \<lparr>v_participants = participants d, v_votes = vs\<rparr>"
  define self1 where "self1 = self\<lparr>agents := ags, votes := AList.update (debate_key i) vd (votes self)\<rparr>"
  have fresh: "debate_key i \<notin> fst ` set (votes self)"
  proof
    assume "debate_key i \<in> fst ` set (votes self)"
    then have "debate_key i \<in> set (map fst (votes self))" by simp
    then have "debate_key i \<in> debate_key ` {0..<i}" using Cons.prems(2) by simp
    then show False by (auto dest: debate_key_inj)
  qed
  have v1: "votes self1 = votes self @ [(debate_key i, vd)]"
    using fresh by (simp add: self1_def update_fresh)
  have k1: "map fst (votes self1) = map debate_key [0..<Suc i]"
    using v1 Cons.prems(2) by simp
  from r have r': "phase_3_loop ?e (Suc i) ds self1 (w1, lg @ map (\<lambda>v. Inr (reasoning v)) vs)
      = Inr (self', wl)"
    by (simp add: self1_def vd_def)
  from Cons.IH [OF r' k1] obtain new where
    n1: "votes self' = votes self1 @ new"
    and n2: "snd wl = (lg @ map (\<lambda>v. Inr (reasoning v)) vs) @
                map Inr (concat (map (\<lambda>x. map reasoning (v_votes (snd x))) new))"
    by blast
  have a: "votes self' = votes self @ ((debate_key i, vd) # new)"
    using n1 v1 by simp
  have b: "snd wl = lg @ map Inr (concat (map (\<lambda>x. map reasoning (v_votes (snd x)))
                ((debate_key i, vd) # new)))"
    using n2 by (simp add: vd_def comp_def)
  from a b show ?case by blast
qed

lemma run_phase_3_voting_log:
  assumes run: "run_phase_3_voting (replies_logged e) (w, lg) self = Inr (self', wl)"
    and v0: "votes self = []"
  shows "snd wl = lg @ map Inr (concat (map (\<lambda>x. map reasoning (v_votes (snd x))) (votes self')))"
proof -
  obtain t0 w1 where c0: "clock e w = (t0, w1)" by (cases "clock e w")
  show ?thesis
  proof (cases "phase_3_loop (replies_logged e) 0 (debates self) self (w1, lg)")
    case (Inl err)
    with run c0 show ?thesis
      by (simp add: run_phase_3_voting_def replies_logged_clock)
  next
    case (Inr y)
    obtain self1 w2 lg2 where y: "y = (self1, (w2, lg2))" by (cases y) auto
    from Inr y have l: "phase_3_loop (replies_logged e) 0 (debates self) self (w1, lg)
        = Inr (self1, (w2, lg2))" by simp
    from run c0 l have s: "votes self' = votes self1" and w: "snd wl = lg2"
      by (auto simp: run_phase_3_voting_def replies_logged_clock split: prod.splits)
    from phase_3_loop_log [OF l] v0
    have "lg2 = lg @ map Inr (concat (map (\<lambda>x. map reasoning (v_votes (snd x))) (votes self1)))"
      by auto
    with s w show ?thesis by simp
  qed
qed

lemma run_phase_3_voting_parse:
  assumes run: "run_phase_3_voting e w self = Inr (self', w')"
    and v0: "votes self = []"
    and vd: "vd \<in> snd ` set (votes self')" and v: "v \<in> set (v_votes vd)"
  shows "v = record_vote (v_participants vd) (voter_id v) (reasoning v)"
proof -
  from run_phase_3_voting_result [OF run v0]
  have "list_all2 (vote_data_of (map fst (agents self))) (debates self) (map snd (votes self'))"
    by simp
  moreover from vd have "vd \<in> set (map snd (votes self'))" by simp
  ultimately obtain d where "vote_data_of (map fst (agents self)) d vd"
    by (blast dest: list_all2_right)
  with v show ?thesis by (simp add: vote_data_of_def)
qed

text \<open>Every reasoning that a run records is a text that a call of the backend returned.\<close>

lemma generate_response_reply:
  "generate_response e w self prompt h = (Inr reply, self', w') \<Longrightarrow>
   \<exists>w1 ms w2. chat e w1 (model self) ms = (Inr reply, w2)"
  by (auto simp: generate_response_def Let_def split: prod.splits sum.splits)

lemma voting_loop_reasoning:
  assumes "voting_loop e self d i ags w = Inr (ags', vs, w')"
    and q: "\<And>w1 m ms reply w2. chat e w1 m ms = (Inr reply, w2) \<Longrightarrow> Q reply"
  shows "\<forall>v \<in> set vs. Q (reasoning v)"
  using assms(1)
proof (induction ags arbitrary: w ags' vs w')
  case Nil
  then show ?case by simp
next
  case (Cons x ags)
  obtain aid agent where x: "x = (aid, agent)" by (cases x)
  show ?case
  proof (cases "aid \<noteq> fst (participants d) \<and> aid \<noteq> snd (participants d)")
    case True
    from Cons.prems x True obtain summary reply agent1 w1 rest' vs' where
      g: "generate_response e w agent (vote_prompt summary (t_position_label self)) True
            = (Inr reply, agent1, w1)"
      and r: "voting_loop e self d i ags w1 = Inr (rest', vs', w')"
      and v: "vs = record_vote (participants d) aid reply # vs'"
      by (auto split: prod.splits sum.splits)
    from generate_response_reply [OF g] q have "Q reply" by blast
    with Cons.IH [OF r] v show ?thesis by simp
  next
    case False
    from Cons.prems x False obtain rest' where
      r: "voting_loop e self d i ags w = Inr (rest', vs, w')"
      by (auto split: prod.splits sum.splits)
    from Cons.IH [OF r] show ?thesis .
  qed
qed

lemma set_update_cases:
  "x \<in> set (AList.update k v al) \<Longrightarrow> x = (k, v) \<or> x \<in> set al"
  by (induction al) (auto split: if_splits)

lemma phase_3_loop_reasoning:
  assumes "phase_3_loop e i ds self w = Inr (self', w')"
    and q: "\<And>w1 m ms reply w2. chat e w1 m ms = (Inr reply, w2) \<Longrightarrow> Q reply"
    and "\<forall>vd \<in> snd ` set (votes self). \<forall>v \<in> set (v_votes vd). Q (reasoning v)"
  shows "\<forall>vd \<in> snd ` set (votes self'). \<forall>v \<in> set (v_votes vd). Q (reasoning v)"
  using assms(1,3)
proof (induction ds arbitrary: i self w)
  case Nil
  then show ?case by simp
next
  case (Cons d ds)
  from Cons.prems(1) obtain ags vs w1 where
    vl: "voting_loop e self d i (agents self) w = Inr (ags, vs, w1)"
    and r: "phase_3_loop e (Suc i) ds
              (self\<lparr>agents := ags,
                    votes := AList.update (debate_key i)
                      \<lparr>v_participants = participants d, v_votes = vs\<rparr> (votes self)\<rparr>) w1
            = Inr (self', w')"
    by (auto split: prod.splits sum.splits)
  have vq: "\<forall>v \<in> set vs. Q (reasoning v)"
    by (rule voting_loop_reasoning [OF vl]) (rule q)
  have "\<forall>vd \<in> snd ` set (AList.update (debate_key i)
                      \<lparr>v_participants = participants d, v_votes = vs\<rparr> (votes self)).
          \<forall>v \<in> set (v_votes vd). Q (reasoning v)"
  proof (intro ballI)
    fix vd v
    assume vd: "vd \<in> snd ` set (AList.update (debate_key i)
                      \<lparr>v_participants = participants d, v_votes = vs\<rparr> (votes self))"
      and v: "v \<in> set (v_votes vd)"
    from vd obtain k where "(k, vd) \<in> set (AList.update (debate_key i)
                      \<lparr>v_participants = participants d, v_votes = vs\<rparr> (votes self))"
      by auto
    from set_update_cases [OF this]
    have "vd = \<lparr>v_participants = participants d, v_votes = vs\<rparr> \<or> vd \<in> snd ` set (votes self)"
      by force
    then show "Q (reasoning v)"
    proof
      assume "vd = \<lparr>v_participants = participants d, v_votes = vs\<rparr>"
      with v vq show ?thesis by simp
    next
      assume "vd \<in> snd ` set (votes self)"
      with Cons.prems(2) v show ?thesis by blast
    qed
  qed
  then show ?case by (intro Cons.IH [OF r]) simp
qed

lemma run_phases_reasoning:
  assumes run: "run_phases e w self = Inr (self', w')"
    and d0: "debates self = []" and v0: "votes self = []"
    and q: "\<And>w1 m ms reply w2. chat e w1 m ms = (Inr reply, w2) \<Longrightarrow> Q reply"
    and vd: "vd \<in> snd ` set (votes self')" and v: "v \<in> set (v_votes vd)"
  shows "Q (reasoning v)"
proof -
  from run obtain self1 w1 self2 w2 where
    p1: "run_phase_1_positions e w self = Inr (self1, w1)"
    and p2: "run_phase_2_debates e w1 self1 = Inr (self2, w2)"
    and p3: "run_phase_3_voting e w2 self2 = Inr (self', w')"
    by (auto simp: run_phases_def split: prod.splits sum.splits)
  note r1 = run_phase_1_positions_keys [OF p1]
  note r2 = run_phase_2_debates_result [OF p2]
  have v2: "votes self2 = []" using r1 r2 v0 by simp
  from p3 obtain u self3 u' where
    l: "phase_3_loop e 0 (debates self2) self2 u = Inr (self3, u')"
    and s: "\<exists>x. self' = set_phase_duration ''voting'' x self3"
    by (auto simp: run_phase_3_voting_def split: prod.splits sum.splits)
  have a: "\<forall>vd \<in> snd ` set (votes self3). \<forall>v \<in> set (v_votes vd). Q (reasoning v)"
    by (rule phase_3_loop_reasoning [OF l q]) (simp_all add: v2)
  from s have "votes self' = votes self3" by auto
  with vd have "vd \<in> snd ` set (votes self3)" by simp
  from bspec [OF a this] have "\<forall>v \<in> set (v_votes vd). Q (reasoning v)" .
  from bspec [OF this v] show ?thesis .
qed

lemma example_logged_votes:
  "\<exists>t t' wl. votes t = [] \<and>
     run_phase_3_voting (replies_logged (const_env ''I pick B'')) ((), []) t = Inr (t', wl) \<and>
     snd wl = [Inr ''I pick B'', Inr ''I pick B'', Inr ''I pick B''] \<and>
     map (\<lambda>x. map vote (v_votes (snd x))) (votes t') = [[''B''], [''B''], [''B'']] \<and>
     map (\<lambda>x. map winner_id (v_votes (snd x))) (votes t') =
       [[''agent_1''], [''agent_2''], [''agent_2'']]"
proof -
  have "case DebateTournament_init 3 None None ''position'' of
          Inl _ \<Rightarrow> False
        | Inr s \<Rightarrow>
            (case run_phase_1_positions (const_env ''A'') () s of
               Inl _ \<Rightarrow> False
             | Inr (s1, _) \<Rightarrow>
                 (case run_phase_2_debates (const_env ''A'') () s1 of
                    Inl _ \<Rightarrow> False
                  | Inr (t, _) \<Rightarrow>
                      length (votes t) = 0 \<and>
                      (case run_phase_3_voting (replies_logged (const_env ''I pick B''))
                              ((), []) t of
                         Inl _ \<Rightarrow> False
                       | Inr (t', wl) \<Rightarrow>
                           snd wl = [Inr ''I pick B'', Inr ''I pick B'', Inr ''I pick B''] \<and>
                           map (\<lambda>x. map vote (v_votes (snd x))) (votes t') =
                             [[''B''], [''B''], [''B'']] \<and>
                           map (\<lambda>x. map winner_id (v_votes (snd x))) (votes t') =
                             [[''agent_1''], [''agent_2''], [''agent_2'']])))"
    by code_simp
  then show ?thesis by (auto split: sum.splits prod.splits)
qed

text \<open>
  C2. The vote recorded for a response \<open>r\<close> to a debate between \<open>a\<close> and \<open>b\<close> has
  the choice \<open>A\<close> when the character \<open>A\<close> occurs among the first 10 characters of \<open>r\<close> and
  the choice \<open>B\<close> otherwise, and its \<open>winner_id\<close> is \<open>a\<close> for \<open>A\<close> and \<open>b\<close> for \<open>B\<close>.
  Every vote that a run of the phases records is such a vote of its own reasoning, and
  the reasoning is the reply of the backend: when the backend returns \<open>r\<close> to every call,
  every vote of the run has the reasoning \<open>r\<close>, the choice that \<open>r\<close> yields and the winner
  that goes with it; and with any backend, run with a log of its replies, the replies of
  the voting phase are the reasonings of the recorded votes, one reply for each vote, in
  the order of the debates and of the voters (but for the log, the run is the run
  without it). The winner that \<open>vote_on_debate\<close> of society\_debate\_tournament.py returns
  is that of the reply to its one call, which is kept as the reasoning. The four
  responses of the specification yield \<open>A\<close>, \<open>B\<close>, \<open>B\<close>, and \<open>B\<close> for any response without a
  letter.
\<close>

theorem vote_extraction:
  "vote (record_vote (a, b) voter r) = (if CHR ''A'' \<in> set (take 10 r) then ''A'' else ''B'') \<and>
   winner_id (record_vote (a, b) voter r) = (if CHR ''A'' \<in> set (take 10 r) then a else b) \<and>
   voter_id (record_vote (a, b) voter r) = voter \<and>
   reasoning (record_vote (a, b) voter r) = r \<and>
   (run_phases e w self = Inr (self', w') \<and> debates self = [] \<and> votes self = [] \<longrightarrow>
      (\<forall>vd \<in> snd ` set (votes self'). \<forall>v \<in> set (v_votes vd).
         vote v = (if CHR ''A'' \<in> set (take 10 (reasoning v)) then ''A'' else ''B'') \<and>
         winner_id v = (if vote v = ''A'' then fst (v_participants vd)
                        else snd (v_participants vd)))) \<and>
   (run_phases (const_env r) u self = Inr (s, u') \<and> debates self = [] \<and> votes self = [] \<longrightarrow>
      (\<forall>vd \<in> snd ` set (votes s). \<forall>v \<in> set (v_votes vd).
         reasoning v = r \<and>
         vote v = (if CHR ''A'' \<in> set (take 10 r) then ''A'' else ''B'') \<and>
         winner_id v = (if CHR ''A'' \<in> set (take 10 r) then fst (v_participants vd)
                        else snd (v_participants vd)))) \<and>
   (run_phase_3_voting (replies_logged e) (w, lg) t = Inr (t', wl) \<and> votes t = [] \<longrightarrow>
      run_phase_3_voting e w t = Inr (t', fst wl) \<and>
      snd wl = lg @ map Inr (concat (map (\<lambda>x. map reasoning (v_votes (snd x))) (votes t'))) \<and>
      (\<forall>vd \<in> snd ` set (votes t'). \<forall>v \<in> set (v_votes vd).
         vote v = (if CHR ''A'' \<in> set (take 10 (reasoning v)) then ''A'' else ''B'') \<and>
         winner_id v = (if vote v = ''A'' then fst (v_participants vd)
                        else snd (v_participants vd)))) \<and>
   (vote_on_debate e w soc sd voter = Inr (sv, ws) \<longrightarrow>
      s_voter_id sv = voter \<and>
      (\<exists>txt. society_debate_text sd = Inr txt \<and>
         chat e w (s_model soc) [\<lparr>role = ''user'', content = txt\<rparr>] = (Inr (s_reasoning sv), ws)) \<and>
      s_winner_id sv = (if CHR ''A'' \<in> set (take 10 (s_reasoning sv)) then fst (sd_participants sd)
                        else snd (sd_participants sd))) \<and>
   vote (record_vote (a, b) voter ''A, because it's fairer'') = ''A'' \<and>
   vote (record_vote (a, b) voter ''I pick B'') = ''B'' \<and>
   vote (record_vote (a, b) voter ''Neither are convincing but I suppose B'') = ''B'' \<and>
   ((\<forall>c \<in> set r. c \<notin> set ''ABCDEFGHIJKLMNOPQRSTUVWXYZabcdefghijklmnopqrstuvwxyz'') \<longrightarrow>
      vote (record_vote (a, b) voter r) = ''B'')"
proof -
  have parse: "vote v = (if CHR ''A'' \<in> set (take 10 (reasoning v)) then ''A'' else ''B'') \<and>
         winner_id v = (if vote v = ''A'' then fst ps else snd ps)"
    if "v = record_vote ps (voter_id v) (reasoning v)" for v ps
  proof -
    have "vote (record_vote ps (voter_id v) (reasoning v)) =
            (if CHR ''A'' \<in> set (take 10 (reasoning v)) then ''A'' else ''B'')"
      and "winner_id (record_vote ps (voter_id v) (reasoning v)) =
            (if vote (record_vote ps (voter_id v) (reasoning v)) = ''A''
             then fst ps else snd ps)"
      by (simp_all add: record_vote_def parse_vote_def Let_def)
    with that show ?thesis by simp
  qed
  have c1: "vote (record_vote (a, b) voter r) = (if CHR ''A'' \<in> set (take 10 r) then ''A'' else ''B'')"
    and c2: "winner_id (record_vote (a, b) voter r) = (if CHR ''A'' \<in> set (take 10 r) then a else b)"
    and c3: "voter_id (record_vote (a, b) voter r) = voter"
    and c4: "reasoning (record_vote (a, b) voter r) = r"
    by (simp_all add: record_vote_def parse_vote_def Let_def)
  have c5: "run_phases e w self = Inr (self', w') \<and> debates self = [] \<and> votes self = [] \<longrightarrow>
      (\<forall>vd \<in> snd ` set (votes self'). \<forall>v \<in> set (v_votes vd).
         vote v = (if CHR ''A'' \<in> set (take 10 (reasoning v)) then ''A'' else ''B'') \<and>
         winner_id v = (if vote v = ''A'' then fst (v_participants vd)
                        else snd (v_participants vd)))"
  proof (intro impI ballI)
    fix vd v
    assume h: "run_phases e w self = Inr (self', w') \<and> debates self = [] \<and> votes self = []"
      and vd: "vd \<in> snd ` set (votes self')" and v: "v \<in> set (v_votes vd)"
    from h have run: "run_phases e w self = Inr (self', w')"
      and d0: "debates self = []" and v0: "votes self = []" by simp_all
    from recorded_votes_parse [OF run d0 v0 vd v]
    show "vote v = (if CHR ''A'' \<in> set (take 10 (reasoning v)) then ''A'' else ''B'') \<and>
         winner_id v = (if vote v = ''A'' then fst (v_participants vd)
                        else snd (v_participants vd))"
      by (rule parse)
  qed
  have c6: "run_phases (const_env r) u self = Inr (s, u') \<and> debates self = [] \<and> votes self = [] \<longrightarrow>
      (\<forall>vd \<in> snd ` set (votes s). \<forall>v \<in> set (v_votes vd).
         reasoning v = r \<and>
         vote v = (if CHR ''A'' \<in> set (take 10 r) then ''A'' else ''B'') \<and>
         winner_id v = (if CHR ''A'' \<in> set (take 10 r) then fst (v_participants vd)
                        else snd (v_participants vd)))"
  proof (intro impI ballI)
    fix vd v
    assume h: "run_phases (const_env r) u self = Inr (s, u') \<and> debates self = [] \<and> votes self = []"
      and vd: "vd \<in> snd ` set (votes s)" and v: "v \<in> set (v_votes vd)"
    from h have run: "run_phases (const_env r) u self = Inr (s, u')"
      and d0: "debates self = []" and v0: "votes self = []" by simp_all
    have q: "reply = r" if "chat (const_env r) w1 m ms = (Inr reply, w2)" for w1 m ms reply w2
      using that by (simp add: const_env_def)
    have re: "reasoning v = r"
      by (rule run_phases_reasoning [OF run d0 v0 _ vd v, where Q = "\<lambda>x. x = r"]) (rule q)
    from parse [OF recorded_votes_parse [OF run d0 v0 vd v]] re
    show "reasoning v = r \<and>
         vote v = (if CHR ''A'' \<in> set (take 10 r) then ''A'' else ''B'') \<and>
         winner_id v = (if CHR ''A'' \<in> set (take 10 r) then fst (v_participants vd)
                        else snd (v_participants vd))"
      by auto
  qed
  have c7: "run_phase_3_voting (replies_logged e) (w, lg) t = Inr (t', wl) \<and> votes t = [] \<longrightarrow>
      run_phase_3_voting e w t = Inr (t', fst wl) \<and>
      snd wl = lg @ map Inr (concat (map (\<lambda>x. map reasoning (v_votes (snd x))) (votes t'))) \<and>
      (\<forall>vd \<in> snd ` set (votes t'). \<forall>v \<in> set (v_votes vd).
         vote v = (if CHR ''A'' \<in> set (take 10 (reasoning v)) then ''A'' else ''B'') \<and>
         winner_id v = (if vote v = ''A'' then fst (v_participants vd)
                        else snd (v_participants vd)))"
  proof (intro impI)
    assume h: "run_phase_3_voting (replies_logged e) (w, lg) t = Inr (t', wl) \<and> votes t = []"
    then have run: "run_phase_3_voting (replies_logged e) (w, lg) t = Inr (t', wl)"
      and v0: "votes t = []" by simp_all
    from replies_logged_run_phase_3_voting [of e w lg t] run
    have x: "run_phase_3_voting e w t = Inr (t', fst wl)" by simp
    note y = run_phase_3_voting_log [OF run v0]
    have z: "\<forall>vd \<in> snd ` set (votes t'). \<forall>v \<in> set (v_votes vd).
         vote v = (if CHR ''A'' \<in> set (take 10 (reasoning v)) then ''A'' else ''B'') \<and>
         winner_id v = (if vote v = ''A'' then fst (v_participants vd)
                        else snd (v_participants vd))"
    proof (intro ballI)
      fix vd v
      assume vd: "vd \<in> snd ` set (votes t')" and v: "v \<in> set (v_votes vd)"
      from run_phase_3_voting_parse [OF x v0 vd v]
      show "vote v = (if CHR ''A'' \<in> set (take 10 (reasoning v)) then ''A'' else ''B'') \<and>
         winner_id v = (if vote v = ''A'' then fst (v_participants vd)
                        else snd (v_participants vd))"
        by (rule parse)
    qed
    from x y z show "run_phase_3_voting e w t = Inr (t', fst wl) \<and>
      snd wl = lg @ map Inr (concat (map (\<lambda>x. map reasoning (v_votes (snd x))) (votes t'))) \<and>
      (\<forall>vd \<in> snd ` set (votes t'). \<forall>v \<in> set (v_votes vd).
         vote v = (if CHR ''A'' \<in> set (take 10 (reasoning v)) then ''A'' else ''B'') \<and>
         winner_id v = (if vote v = ''A'' then fst (v_participants vd)
                        else snd (v_participants vd)))"
      by (intro conjI)
  qed
  have c8: "vote_on_debate e w soc sd voter = Inr (sv, ws) \<longrightarrow>
      s_voter_id sv = voter \<and>
      (\<exists>txt. society_debate_text sd = Inr txt \<and>
         chat e w (s_model soc) [\<lparr>role = ''user'', content = txt\<rparr>] = (Inr (s_reasoning sv), ws)) \<and>
      s_winner_id sv = (if CHR ''A'' \<in> set (take 10 (s_reasoning sv)) then fst (sd_participants sd)
                        else snd (sd_participants sd))"
    by (auto simp: vote_on_debate_def Let_def split: sum.splits prod.splits)
  have c9: "vote (record_vote (a, b) voter ''A, because it's fairer'') = ''A''"
    and c10: "vote (record_vote (a, b) voter ''I pick B'') = ''B''"
    and c11: "vote (record_vote (a, b) voter ''Neither are convincing but I suppose B'') = ''B''"
    by (simp_all add: record_vote_def parse_vote_def Let_def)
  have c12: "(\<forall>c \<in> set r. c \<notin> set ''ABCDEFGHIJKLMNOPQRSTUVWXYZabcdefghijklmnopqrstuvwxyz'') \<longrightarrow>
      vote (record_vote (a, b) voter r) = ''B''"
  proof
    assume "\<forall>c \<in> set r. c \<notin> set ''ABCDEFGHIJKLMNOPQRSTUVWXYZabcdefghijklmnopqrstuvwxyz''"
    then have "CHR ''A'' \<notin> set r" by auto
    then have "CHR ''A'' \<notin> set (take 10 r)" by (auto dest: in_set_takeD)
    then show "vote (record_vote (a, b) voter r) = ''B''"
      by (simp add: record_vote_def parse_vote_def Let_def)
  qed
  show ?thesis
    apply (rule conjI, rule c1)
    apply (rule conjI, rule c2)
    apply (rule conjI, rule c3)
    apply (rule conjI, rule c4)
    apply (rule conjI, rule c5)
    apply (rule conjI, rule c6)
    apply (rule conjI, rule c7)
    apply (rule conjI, rule c8)
    apply (rule conjI, rule c9)
    apply (rule conjI, rule c10)
    apply (rule conjI, rule c11)
    apply (rule c12)
    done
qed

theorem vote_extraction_witness:
  "\<exists>self self' w' s t t' wl.
     DebateTournament_init 3 None None ''position'' = Inr self \<and>
     debates self = [] \<and> votes self = [] \<and>
     run_phases (const_env ''A'') () self = Inr (self', w') \<and>
     list_all (\<lambda>vd. list_all (\<lambda>v. vote v =
         (if CHR ''A'' \<in> set (take 10 (reasoning v)) then ''A'' else ''B'')) (v_votes vd))
       (map snd (votes self')) \<and>
     run_phases (const_env ''I pick B'') () self = Inr (s, ()) \<and>
     length (votes s) = 3 \<and>
     list_all (\<lambda>vd. length (v_votes vd) = 1 \<and>
         list_all (\<lambda>v. reasoning v = ''I pick B'' \<and> vote v = ''B'' \<and>
                        winner_id v = snd (v_participants vd)) (v_votes vd))
       (map snd (votes s)) \<and>
     votes t = [] \<and>
     run_phase_3_voting (replies_logged (const_env ''I pick B'')) ((), []) t = Inr (t', wl) \<and>
     run_phase_3_voting (const_env ''I pick B'') () t = Inr (t', fst wl) \<and>
     snd wl = map Inr (concat (map (\<lambda>x. map reasoning (v_votes (snd x))) (votes t'))) \<and>
     snd wl = [Inr ''I pick B'', Inr ''I pick B'', Inr ''I pick B''] \<and>
     map (\<lambda>x. map vote (v_votes (snd x))) (votes t') = [[''B''], [''B''], [''B'']] \<and>
     vote_on_debate (const_env ''A, of course'') ()
       \<lparr>s_model = ''llama3.2'', num_bots = 3, s_debates = [], s_votes = []\<rparr>
       \<lparr>sd_participants = (''bot_0'', ''bot_1''),
        sd_rounds = [[(''type'', ''opening''), (''bot_0'', ''x''), (''bot_1'', ''y'')],
                     [(''type'', ''rebuttal''), (''bot_0'', ''x''), (''bot_1'', ''y'')],
                     [(''type'', ''closing''), (''bot_0'', ''x''), (''bot_1'', ''y'')]]\<rparr>
       ''bot_2''
     = Inr (\<lparr>s_voter_id = ''bot_2'', s_winner_id = ''bot_0'', s_reasoning = ''A, of course''\<rparr>, ()) \<and>
     vote (record_vote (''agent_0'', ''agent_1'') ''agent_2'' ''42'') = ''B'' \<and>
     winner_id (record_vote (''agent_0'', ''agent_1'') ''agent_2'' ''42'') = ''agent_1''"
proof -
  from example_phases obtain self self' w' where
    init: "DebateTournament_init 3 None None ''position'' = Inr self"
    and run: "run_phases (const_env ''A'') () self = Inr (self', w')"
    by auto
  from example_keys [OF init] have d0: "debates self = []" and v0: "votes self = []"
    by simp_all
  from init have "DebateTournament_init (int 3) None None ''position'' = Inr self" by simp
  from init_fresh [OF this] have dist: "distinct (map fst (agents self))"
    and n3: "length (agents self) = 3" by simp_all
  from run_phases_answers [OF const_env_answers d0]
  obtain s where runB: "run_phases (const_env ''I pick B'') () self = Inr (s, ())" by auto
  from example_logged_votes obtain t t' wl where
    ex: "votes t = [] \<and>
     run_phase_3_voting (replies_logged (const_env ''I pick B'')) ((), []) t = Inr (t', wl) \<and>
     snd wl = [Inr ''I pick B'', Inr ''I pick B'', Inr ''I pick B''] \<and>
     map (\<lambda>x. map vote (v_votes (snd x))) (votes t') = [[''B''], [''B''], [''B'']] \<and>
     map (\<lambda>x. map winner_id (v_votes (snd x))) (votes t') =
       [[''agent_1''], [''agent_2''], [''agent_2'']]"
    by (elim exE) (rule that)
  note tv = ex [THEN conjunct1]
  note runL = ex [THEN conjunct2, THEN conjunct1]
  note lg = ex [THEN conjunct2, THEN conjunct2, THEN conjunct1]
  note vs = ex [THEN conjunct2, THEN conjunct2, THEN conjunct2, THEN conjunct1]
  define soc where "soc = \<lparr>s_model = ''llama3.2'', num_bots = 3, s_debates = [], s_votes = []\<rparr>"
  define sd where "sd = \<lparr>sd_participants = (''bot_0'', ''bot_1''),
        sd_rounds = [[(''type'', ''opening''), (''bot_0'', ''x''), (''bot_1'', ''y'')],
                     [(''type'', ''rebuttal''), (''bot_0'', ''x''), (''bot_1'', ''y'')],
                     [(''type'', ''closing''), (''bot_0'', ''x''), (''bot_1'', ''y'')]]\<rparr>"
  have sv: "vote_on_debate (const_env ''A, of course'') () soc sd ''bot_2''
     = Inr (\<lparr>s_voter_id = ''bot_2'', s_winner_id = ''bot_0'', s_reasoning = ''A, of course''\<rparr>, ())"
    by (simp add: vote_on_debate_def society_debate_text_def round_entry_def const_env_def
        soc_def sd_def Let_def)
  have nolet: "\<forall>c \<in> set ''42''. c \<notin> set ''ABCDEFGHIJKLMNOPQRSTUVWXYZabcdefghijklmnopqrstuvwxyz''"
    by simp
  note inst1 = vote_extraction [where a = "''agent_0''" and b = "''agent_1''"
      and voter = "''agent_2''" and r = "''42''" and e = "const_env ''A''" and w = "()"
      and self = self and self' = self' and w' = w']
  note inst2 = vote_extraction [where r = "''I pick B''" and u = "()" and self = self
      and s = s and u' = "()"]
  note inst3 = vote_extraction [where e = "const_env ''I pick B''" and w = "()" and lg = "[]"
      and t = t and t' = t' and wl = wl]
  note inst4 = vote_extraction [where voter = "''bot_2''" and e = "const_env ''A, of course''"
      and w = "()" and soc = soc and sd = sd and ws = "()"
      and sv = "\<lparr>s_voter_id = ''bot_2'', s_winner_id = ''bot_0'', s_reasoning = ''A, of course''\<rparr>"]
  note c5 = inst1 [THEN conjunct2, THEN conjunct2, THEN conjunct2, THEN conjunct2, THEN conjunct1]
  note c2 = inst1 [THEN conjunct2, THEN conjunct1]
  note c12 = inst1 [THEN conjunct2, THEN conjunct2, THEN conjunct2, THEN conjunct2,
      THEN conjunct2, THEN conjunct2, THEN conjunct2, THEN conjunct2, THEN conjunct2,
      THEN conjunct2, THEN conjunct2]
  note c6 = inst2 [THEN conjunct2, THEN conjunct2, THEN conjunct2, THEN conjunct2,
      THEN conjunct2, THEN conjunct1]
  note c7 = inst3 [THEN conjunct2, THEN conjunct2, THEN conjunct2, THEN conjunct2,
      THEN conjunct2, THEN conjunct2, THEN conjunct1]
  note c8 = inst4 [THEN conjunct2, THEN conjunct2, THEN conjunct2, THEN conjunct2,
      THEN conjunct2, THEN conjunct2, THEN conjunct2, THEN conjunct1]
  from c5 run d0 v0
  have "\<forall>vd \<in> snd ` set (votes self'). \<forall>v \<in> set (v_votes vd).
         vote v = (if CHR ''A'' \<in> set (take 10 (reasoning v)) then ''A'' else ''B'') \<and>
         winner_id v = (if vote v = ''A'' then fst (v_participants vd)
                        else snd (v_participants vd))"
    by (rule mp [OF _ conjI [OF _ conjI]])
  then have all: "list_all (\<lambda>vd. list_all (\<lambda>v. vote v =
         (if CHR ''A'' \<in> set (take 10 (reasoning v)) then ''A'' else ''B'')) (v_votes vd))
       (map snd (votes self'))"
    by (simp add: list_all_iff)
  from c6 runB d0 v0
  have bs: "\<forall>vd \<in> snd ` set (votes s). \<forall>v \<in> set (v_votes vd).
         reasoning v = ''I pick B'' \<and>
         vote v = (if CHR ''A'' \<in> set (take 10 ''I pick B'') then ''A'' else ''B'') \<and>
         winner_id v = (if CHR ''A'' \<in> set (take 10 ''I pick B'') then fst (v_participants vd)
                        else snd (v_participants vd))"
    by (rule mp [OF _ conjI [OF _ conjI]])
  have lens: "\<forall>vd \<in> snd ` set (votes s). length (v_votes vd) = 1"
  proof
    fix vd assume "vd \<in> snd ` set (votes s)"
    from phases_vote_data [OF runB dist d0 v0 this] n3 show "length (v_votes vd) = 1" by simp
  qed
  from bs lens
  have allB: "list_all (\<lambda>vd. length (v_votes vd) = 1 \<and>
         list_all (\<lambda>v. reasoning v = ''I pick B'' \<and> vote v = ''B'' \<and>
                        winner_id v = snd (v_participants vd)) (v_votes vd))
       (map snd (votes s))"
    by (simp add: list_all_iff)
  from phases_counts [OF runB d0 v0] n3 have len3: "length (votes s) = 3" by simp
  from c7 runL tv
  have l7: "run_phase_3_voting (const_env ''I pick B'') () t = Inr (t', fst wl) \<and>
      snd wl = [] @ map Inr (concat (map (\<lambda>x. map reasoning (v_votes (snd x))) (votes t'))) \<and>
      (\<forall>vd \<in> snd ` set (votes t'). \<forall>v \<in> set (v_votes vd).
         vote v = (if CHR ''A'' \<in> set (take 10 (reasoning v)) then ''A'' else ''B'') \<and>
         winner_id v = (if vote v = ''A'' then fst (v_participants vd)
                        else snd (v_participants vd)))"
    by (rule mp [OF _ conjI])
  from l7 have l7a: "run_phase_3_voting (const_env ''I pick B'') () t = Inr (t', fst wl)"
    by (rule conjunct1)
  from l7 [THEN conjunct2, THEN conjunct1]
  have l7b: "snd wl = map Inr (concat (map (\<lambda>x. map reasoning (v_votes (snd x))) (votes t')))"
    by simp
  from c12 nolet
  have b: "vote (record_vote (''agent_0'', ''agent_1'') ''agent_2'' ''42'') = ''B''"
    by (rule mp)
  from c2
  have wi: "winner_id (record_vote (''agent_0'', ''agent_1'') ''agent_2'' ''42'') = ''agent_1''"
    by simp
  from c8 sv have "s_voter_id \<lparr>s_voter_id = ''bot_2'', s_winner_id = ''bot_0'',
      s_reasoning = ''A, of course''\<rparr> = ''bot_2'' \<and>
      (\<exists>txt. society_debate_text sd = Inr txt \<and>
         chat (const_env ''A, of course'') () (s_model soc) [\<lparr>role = ''user'', content = txt\<rparr>] =
           (Inr (s_reasoning \<lparr>s_voter_id = ''bot_2'', s_winner_id = ''bot_0'',
      s_reasoning = ''A, of course''\<rparr>), ())) \<and>
      s_winner_id \<lparr>s_voter_id = ''bot_2'', s_winner_id = ''bot_0'',
      s_reasoning = ''A, of course''\<rparr> = (if CHR ''A'' \<in> set (take 10 (s_reasoning \<lparr>s_voter_id = ''bot_2'', s_winner_id = ''bot_0'',
      s_reasoning = ''A, of course''\<rparr>)) then fst (sd_participants sd)
                        else snd (sd_participants sd))"
    by (rule mp)
  show ?thesis
    apply (rule exI [where x = self])
    apply (rule exI [where x = self'])
    apply (rule exI [where x = w'])
    apply (rule exI [where x = s])
    apply (rule exI [where x = t])
    apply (rule exI [where x = t'])
    apply (rule exI [where x = wl])
    using init run d0 v0 all runB len3 allB tv runL l7a l7b lg vs sv b wi
    apply (simp add: soc_def sd_def)
    done
qed

section \<open>A run does not depend on the clock\<close>

lemma sum_zeros: "sum_list (map (\<lambda>_. 0::real) xs) = 0"
  by (induction xs) simp_all

lemma erase_agent_fields [simp]:
  "model (erase_agent a) = model a"
  "agent_id (erase_agent a) = agent_id a"
  "initial_position (erase_agent a) = initial_position a"
  "position_label (erase_agent a) = position_label a"
  "conversation_history (erase_agent a) = conversation_history a"
  "get_context (erase_agent a) p = get_context a p"
  by (simp_all add: erase_agent_def get_context_def)

lemma get_context_metrics [simp]:
  "get_context (a\<lparr>performance_metrics := pm\<rparr>) p = get_context a p"
  by (simp add: get_context_def)

lemma generate_response_erased:
  assumes ans: "answers_as e f" and g: "generate_response e w a p h = (r, a', w')"
  shows "generate_response (stub_env f) () (erase_agent a) p h = (r, erase_agent a', ())"
proof -
  obtain t0 w1 where c: "clock e w = (t0, w1)" by (cases "clock e w")
  let ?ms = "if h then get_context a p else [\<lparr>role = ''user'', content = p\<rparr>]"
  obtain r0 w2 where ch: "chat e w1 (model a) ?ms = (r0, w2)" by (cases "chat e w1 (model a) ?ms")
  from ans ch have f: "f (model a) ?ms = r0" unfolding answers_as_def by (metis fst_conv)
  obtain t1 w3 where c2: "clock e w2 = (t1, w3)" by (cases "clock e w2")
  show ?thesis
  proof (cases r0)
    case (Inl err)
    from g c ch Inl have "r = Inl err" and "a' = a"
      by (cases h; simp add: generate_response_def Let_def)+
    moreover from f Inl
    have "generate_response (stub_env f) () (erase_agent a) p h = (Inl err, erase_agent a, ())"
      by (cases h) (simp_all add: generate_response_def stub_env_def Let_def)
    ultimately show ?thesis by simp
  next
    case (Inr reply)
    from g c ch c2 Inr have r: "r = Inr reply"
      and a': "a' = add_to_history (add_to_history
         (a\<lparr>performance_metrics := (performance_metrics a)
              \<lparr>response_times := response_times (performance_metrics a) @ [t1 - t0],
               total_time := total_time (performance_metrics a) + (t1 - t0),
               avg_response_time :=
                 sum_list (response_times (performance_metrics a) @ [t1 - t0]) /
                 real (length (response_times (performance_metrics a) @ [t1 - t0]))\<rparr>\<rparr>)
         ''user'' p) ''assistant'' reply"
      by (cases h; simp add: generate_response_def Let_def)+
    from f Inr
    have "generate_response (stub_env f) () (erase_agent a) p h = (Inr reply, erase_agent a', ())"
      unfolding a'
      by (cases h)
        (simp_all add: generate_response_def stub_env_def Let_def add_to_history_def
          erase_agent_def erase_metrics_def sum_zeros)
    with r show ?thesis by simp
  qed
qed

lemma set_initial_position_erased:
  assumes ans: "answers_as e f" and g: "set_initial_position e w a q l = (r, a', w')"
  shows "set_initial_position (stub_env f) () (erase_agent a) q l = (r, erase_agent a', ())"
proof -
  obtain r0 a0 w0 where g0: "generate_response e w a q False = (r0, a0, w0)"
    by (cases "generate_response e w a q False")
  note e0 = generate_response_erased [OF ans g0]
  show ?thesis
    using g g0 e0
    by (cases r0) (auto simp: set_initial_position_def erase_agent_def)
qed

lemma erase_agents_simps [simp]:
  "erase_agents [] = []"
  "erase_agents ((k, a) # ags) = (k, erase_agent a) # erase_agents ags"
  "map fst (erase_agents ags) = map fst ags"
  by (simp_all add: erase_agents_def comp_def case_prod_unfold)

lemma erase_positions_update:
  "erase_positions (AList.update k p ps) = AList.update k (p\<lparr>generated_at := []\<rparr>) (erase_positions ps)"
  by (induction ps) (auto simp: erase_positions_def)

lemma phase_1_loop_erased:
  assumes ans: "answers_as e f"
  shows "phase_1_loop (stub_env f) q l (erase_agents ags) (erase_positions ps) () =
         map_sum id (\<lambda>(ags', ps', w'). (erase_agents ags', erase_positions ps', ()))
           (phase_1_loop e q l ags ps w)"
proof (induction ags arbitrary: ps w)
  case Nil
  show ?case by simp
next
  case (Cons x ags)
  obtain aid agent where x: "x = (aid, agent)" by (cases x)
  obtain r a' w1 where s: "set_initial_position e w agent q l = (r, a', w1)"
    by (cases "set_initial_position e w agent q l")
  note s0 = set_initial_position_erased [OF ans s]
  have m: "model (erase_agent a') = model a'" by simp
  show ?case
  proof (cases r)
    case (Inl err)
    with x s s0 show ?thesis by simp
  next
    case (Inr pos)
    obtain stamp w2 where n: "now_iso e w1 = (stamp, w2)" by (cases "now_iso e w1")
    let ?p = "\<lparr>p_agent_id = aid, p_position = pos, p_model = model a', generated_at = stamp\<rparr>"
    have n0: "now_iso (stub_env f) () = ([], ())" by (simp add: stub_env_def)
    have up: "AList.update aid \<lparr>p_agent_id = aid, p_position = pos, p_model = model a',
                generated_at = []\<rparr> (erase_positions ps) = erase_positions (AList.update aid ?p ps)"
      by (simp add: erase_positions_update)
    show ?thesis
      using x s s0 Inr n n0
      by (simp add: up Cons.IH [of "AList.update aid ?p ps" w2] split: sum.splits prod.splits)
  qed
qed

lemma map_of_erase_agents:
  "map_of (erase_agents ags) k = map_option erase_agent (map_of ags k)"
  by (induction ags) (auto simp: erase_agents_def)

lemma erase_agents_update:
  "erase_agents (AList.update k a ags) = AList.update k (erase_agent a) (erase_agents ags)"
  by (induction ags) (auto simp: erase_agents_def)

lemma agent_respond_erased:
  assumes ans: "answers_as e f"
  shows "agent_respond (stub_env f) () (erase_agents ags) aid p =
         map_sum id (\<lambda>(r, ags', w'). (r, erase_agents ags', ())) (agent_respond e w ags aid p)"
proof (cases "map_of ags aid")
  case None
  then show ?thesis by (simp add: agent_respond_def map_of_erase_agents)
next
  case (Some agent)
  obtain r a' w' where g: "generate_response e w agent p True = (r, a', w')"
    by (cases "generate_response e w agent p True")
  from generate_response_erased [OF ans g] Some g show ?thesis
    by (cases r) (simp_all add: agent_respond_def map_of_erase_agents erase_agents_update)
qed

lemma agent_respond_erased_Inr:
  "answers_as e f \<Longrightarrow> agent_respond e w ags aid p = Inr (r, ags', w') \<Longrightarrow>
   agent_respond (stub_env f) () (erase_agents ags) aid p = Inr (r, erase_agents ags', ())"
  using agent_respond_erased [of e f ags aid p w] by simp

lemma agent_respond_erased_Inl:
  "answers_as e f \<Longrightarrow> agent_respond e w ags aid p = Inl err \<Longrightarrow>
   agent_respond (stub_env f) () (erase_agents ags) aid p = Inl err"
  using agent_respond_erased [of e f ags aid p w] by simp

lemma erase_tournament_fields [simp]:
  "agents (erase_tournament t) = erase_agents (agents t)"
  "positions (erase_tournament t) = erase_positions (positions t)"
  "debates (erase_tournament t) = map erase_debate (debates t)"
  "votes (erase_tournament t) = votes t"
  "num_agents (erase_tournament t) = num_agents t"
  "t_position_label (erase_tournament t) = t_position_label t"
  "topic_question (erase_tournament t) = topic_question t"
  "tournament_metrics (erase_tournament t) = erase_tournament_metrics (tournament_metrics t)"
  by (simp_all add: erase_tournament_def)

lemma stub_clock [simp]: "clock (stub_env f) w = (0, w)" "now_iso (stub_env f) w = ([], w)"
  by (simp_all add: stub_env_def)

lemma run_debate_erased_Inr:
  assumes ans: "answers_as e f" and r: "run_debate e w self a b = Inr (d, self', w')"
  shows "run_debate (stub_env f) () (erase_tournament self) a b =
           Inr (erase_debate d, erase_tournament self', ())"
  using r ans
  by (auto simp: run_debate_def Let_def map_of_erase_agents agent_respond_erased_Inr
      erase_debate_def erase_tournament_def
      simp del: AList.update.simps
      split: option.splits prod.splits sum.splits)

lemma run_debate_erased_Inl:
  assumes ans: "answers_as e f" and r: "run_debate e w self a b = Inl err"
  shows "run_debate (stub_env f) () (erase_tournament self) a b = Inl err"
  using r ans
  by (auto simp: run_debate_def Let_def map_of_erase_agents agent_respond_erased_Inr
      agent_respond_erased_Inl
      simp del: AList.update.simps
      split: option.splits prod.splits sum.splits)

lemma phase_1_loop_erased_Inr:
  "answers_as e f \<Longrightarrow> phase_1_loop e q l ags ps w = Inr (ags', ps', w') \<Longrightarrow>
   phase_1_loop (stub_env f) q l (erase_agents ags) (erase_positions ps) () =
     Inr (erase_agents ags', erase_positions ps', ())"
  using phase_1_loop_erased [of e f q l ags ps w] by simp

lemma phase_1_loop_erased_Inl:
  "answers_as e f \<Longrightarrow> phase_1_loop e q l ags ps w = Inl err \<Longrightarrow>
   phase_1_loop (stub_env f) q l (erase_agents ags) (erase_positions ps) () = Inl err"
  using phase_1_loop_erased [of e f q l ags ps w] by simp

lemma erase_phase_durations_update:
  "map (\<lambda>(k, _). (k, 0::real)) (AList.update ph d pd) =
   AList.update ph 0 (map (\<lambda>(k, _). (k, 0)) pd)"
  by (induction pd) auto

lemma set_phase_duration_erased:
  "set_phase_duration ph 0 (erase_tournament t) = erase_tournament (set_phase_duration ph d t)"
  by (simp add: set_phase_duration_def erase_tournament_def erase_tournament_metrics_def
      erase_phase_durations_update)

lemma erase_tournament_update_agents_positions:
  "erase_tournament (t\<lparr>agents := ags, positions := ps\<rparr>) =
   (erase_tournament t)\<lparr>agents := erase_agents ags, positions := erase_positions ps\<rparr>"
  by (simp add: erase_tournament_def)

lemma run_phase_1_positions_erased_Inr:
  assumes ans: "answers_as e f" and r: "run_phase_1_positions e w self = Inr (self', w')"
  shows "run_phase_1_positions (stub_env f) () (erase_tournament self) =
           Inr (erase_tournament self', ())"
  using r ans
  by (auto simp: run_phase_1_positions_def phase_1_loop_erased_Inr
      set_phase_duration_erased [symmetric] erase_tournament_update_agents_positions
      split: prod.splits sum.splits)

lemma run_phase_1_positions_erased_Inl:
  assumes ans: "answers_as e f" and r: "run_phase_1_positions e w self = Inl err"
  shows "run_phase_1_positions (stub_env f) () (erase_tournament self) = Inl err"
  using r ans
  by (auto simp: run_phase_1_positions_def phase_1_loop_erased_Inl
      split: prod.splits sum.splits)

lemma erase_tournament_append_debate:
  "erase_tournament (t\<lparr>debates := debates t @ [d]\<rparr>) =
   (erase_tournament t)\<lparr>debates := debates (erase_tournament t) @ [erase_debate d]\<rparr>"
  by (simp add: erase_tournament_def)

lemma phase_2_loop_erased:
  assumes ans: "answers_as e f"
  shows "phase_2_loop (stub_env f) ps (erase_tournament self) () =
         map_sum id (\<lambda>(t, w'). (erase_tournament t, ())) (phase_2_loop e ps self w)"
proof (induction ps arbitrary: self w)
  case Nil
  show ?case by simp
next
  case (Cons x ps)
  obtain a b where x: "x = (a, b)" by (cases x)
  show ?case
  proof (cases "run_debate e w self a b")
    case (Inl err)
    from run_debate_erased_Inl [OF ans Inl] Inl x show ?thesis by simp
  next
    case (Inr y)
    obtain d self1 w1 where y: "y = (d, self1, w1)" by (cases y)
    from run_debate_erased_Inr [OF ans Inr [unfolded y]] Inr y x
      Cons.IH [of "self1\<lparr>debates := debates self1 @ [d]\<rparr>" w1]
    show ?thesis by (simp add: erase_tournament_append_debate)
  qed
qed

lemma debate_pairs_erased [simp]: "debate_pairs (erase_tournament t) = debate_pairs t"
  by (simp add: debate_pairs_def)

lemma run_phase_2_debates_erased:
  assumes ans: "answers_as e f"
  shows "run_phase_2_debates (stub_env f) () (erase_tournament self) =
         map_sum id (\<lambda>(t, w'). (erase_tournament t, ())) (run_phase_2_debates e w self)"
proof -
  obtain t0 w1 where c: "clock e w = (t0, w1)" by (cases "clock e w")
  note l = phase_2_loop_erased [OF ans, of "debate_pairs self" self w1]
  show ?thesis
  proof (cases "phase_2_loop e (debate_pairs self) self w1")
    case (Inl err)
    with l c show ?thesis by (simp add: run_phase_2_debates_def)
  next
    case (Inr y)
    obtain t w2 where y: "y = (t, w2)" by (cases y)
    obtain t1 w3 where c2: "clock e w2 = (t1, w3)" by (cases "clock e w2")
    from l c Inr y c2 show ?thesis
      by (simp add: run_phase_2_debates_def set_phase_duration_erased)
  qed
qed

lemma map_of_erase_positions:
  "map_of (erase_positions ps) k = map_option (\<lambda>p. p\<lparr>generated_at := []\<rparr>) (map_of ps k)"
  by (induction ps) (auto simp: erase_positions_def)

lemma format_debate_for_voting_erased [simp]:
  "format_debate_for_voting (erase_tournament self) (erase_debate d) i =
   format_debate_for_voting self d i"
  by (simp add: format_debate_for_voting_def map_of_erase_positions erase_debate_def
      split: prod.splits option.splits sum.splits)

lemma erase_debate_fields [simp]:
  "participants (erase_debate d) = participants d"
  "rounds (erase_debate d) = rounds d"
  by (simp_all add: erase_debate_def)

lemma voting_loop_erased:
  assumes ans: "answers_as e f"
  shows "voting_loop (stub_env f) (erase_tournament self) (erase_debate d) i (erase_agents ags) () =
         map_sum id (\<lambda>(ags', vs, w'). (erase_agents ags', vs, ())) (voting_loop e self d i ags w)"
proof (induction ags arbitrary: w)
  case Nil
  show ?case by simp
next
  case (Cons x ags)
  obtain aid agent where x: "x = (aid, agent)" by (cases x)
  show ?case
  proof (cases "aid \<noteq> fst (participants d) \<and> aid \<noteq> snd (participants d)")
    case False
    with x Cons.IH [of w] show ?thesis
      by (cases "voting_loop e self d i ags w") auto
  next
    case True
    show ?thesis
    proof (cases "format_debate_for_voting self d i")
      case (Inl err)
      with x True show ?thesis by simp
    next
      case (Inr summary)
      let ?p = "vote_prompt summary (t_position_label self)"
      obtain r a' w1 where g: "generate_response e w agent ?p True = (r, a', w1)"
        by (cases "generate_response e w agent ?p True")
      note g0 = generate_response_erased [OF ans g]
      show ?thesis
      proof (cases r)
        case (Inl err)
        with x True Inr g g0 show ?thesis by simp
      next
        case reply: (Inr vote_response)
        with x True Inr g g0 Cons.IH [of w1] show ?thesis
          by (cases "voting_loop e self d i ags w1") auto
      qed
    qed
  qed
qed

lemma erase_tournament_update_agents_votes:
  "erase_tournament (t\<lparr>agents := ags, votes := vs\<rparr>) =
   (erase_tournament t)\<lparr>agents := erase_agents ags, votes := vs\<rparr>"
  by (simp add: erase_tournament_def)

lemma phase_3_loop_erased:
  assumes ans: "answers_as e f"
  shows "phase_3_loop (stub_env f) i (map erase_debate ds) (erase_tournament self) () =
         map_sum id (\<lambda>(t, w'). (erase_tournament t, ())) (phase_3_loop e i ds self w)"
proof (induction ds arbitrary: i self w)
  case Nil
  show ?case by simp
next
  case (Cons d ds)
  note v = voting_loop_erased [OF ans, of self d i "agents self" w]
  show ?case
  proof (cases "voting_loop e self d i (agents self) w")
    case (Inl err)
    with v show ?thesis by simp
  next
    case (Inr y)
    obtain ags vs w1 where y: "y = (ags, vs, w1)" by (cases y)
    let ?self1 = "self\<lparr>agents := ags,
                  votes := AList.update (debate_key i)
                             \<lparr>v_participants = participants d, v_votes = vs\<rparr> (votes self)\<rparr>"
    from v Inr y Cons.IH [of "Suc i" ?self1 w1] show ?thesis
      by (simp add: erase_tournament_update_agents_votes)
  qed
qed

lemma run_phase_3_voting_erased:
  assumes ans: "answers_as e f"
  shows "run_phase_3_voting (stub_env f) () (erase_tournament self) =
         map_sum id (\<lambda>(t, w'). (erase_tournament t, ())) (run_phase_3_voting e w self)"
proof -
  obtain t0 w1 where c: "clock e w = (t0, w1)" by (cases "clock e w")
  note l = phase_3_loop_erased [OF ans, of 0 "debates self" self w1]
  show ?thesis
  proof (cases "phase_3_loop e 0 (debates self) self w1")
    case (Inl err)
    with l c show ?thesis by (simp add: run_phase_3_voting_def)
  next
    case (Inr y)
    obtain t w2 where y: "y = (t, w2)" by (cases y)
    obtain t1 w3 where c2: "clock e w2 = (t1, w3)" by (cases "clock e w2")
    from l c Inr y c2 show ?thesis
      by (simp add: run_phase_3_voting_def set_phase_duration_erased)
  qed
qed

lemma run_phase_1_positions_erased:
  assumes ans: "answers_as e f"
  shows "run_phase_1_positions (stub_env f) () (erase_tournament self) =
         map_sum id (\<lambda>(t, w'). (erase_tournament t, ())) (run_phase_1_positions e w self)"
proof (cases "run_phase_1_positions e w self")
  case (Inl err)
  from run_phase_1_positions_erased_Inl [OF ans Inl] Inl show ?thesis by simp
next
  case (Inr y)
  obtain t w1 where y: "y = (t, w1)" by (cases y)
  from run_phase_1_positions_erased_Inr [OF ans Inr [unfolded y]] Inr y show ?thesis by simp
qed

lemma run_phases_erased:
  assumes ans: "answers_as e f"
  shows "run_phases (stub_env f) () (erase_tournament self) =
         map_sum id (\<lambda>(t, w'). (erase_tournament t, ())) (run_phases e w self)"
proof (cases "run_phase_1_positions e w self")
  case (Inl err)
  with run_phase_1_positions_erased [OF ans, of self w] show ?thesis
    by (simp add: run_phases_def)
next
  case (Inr y)
  obtain s1 w1 where y: "y = (s1, w1)" by (cases y)
  note p1 = run_phase_1_positions_erased [OF ans, of self w]
  note p2 = run_phase_2_debates_erased [OF ans, of s1 w1]
  show ?thesis
  proof (cases "run_phase_2_debates e w1 s1")
    case Inl2: (Inl err)
    with p1 p2 Inr y show ?thesis by (simp add: run_phases_def)
  next
    case Inr2: (Inr z)
    obtain s2 w2 where z: "z = (s2, w2)" by (cases z)
    from p1 p2 Inr y Inr2 z run_phase_3_voting_erased [OF ans, of s2 w2]
    show ?thesis by (simp add: run_phases_def)
  qed
qed

lemma fold_min_zeros: "fold min (map (\<lambda>_. 0::real) ys) 0 = 0"
  by (induction ys) simp_all

lemma fold_max_zeros: "fold max (map (\<lambda>_. 0::real) ys) 0 = 0"
  by (induction ys) simp_all

lemma zeros_min_max:
  "list_min (map (\<lambda>_. 0) xs) = 0" "list_max (map (\<lambda>_. 0) xs) = 0"
  by (cases xs; simp add: fold_min_zeros fold_max_zeros)+

lemma get_metrics_erased: "get_metrics (erase_agent a) = erase_agent_metrics (get_metrics a)"
  by (simp add: get_metrics_def erase_agent_def erase_metrics_def erase_agent_metrics_def
      zeros_min_max)

lemma agent_performance_erased:
  "map (\<lambda>(aid, agent). (aid, get_metrics agent)) (erase_agents ags) =
   map (\<lambda>(k, m). (k, erase_agent_metrics m)) (map (\<lambda>(aid, agent). (aid, get_metrics agent)) ags)"
  by (induction ags) (auto simp: erase_agents_def get_metrics_erased)

lemma calculate_results_erased:
  "calculate_results (stub_env f) () (erase_tournament self) =
   map_sum id (\<lambda>(r, w'). (erase_results r, ())) (calculate_results e w self)"
proof (cases "results_loop (votes self) (map (\<lambda>aid. (aid, 0)) (map fst (agents self)))")
  case (Inl err)
  then show ?thesis by (simp add: calculate_results_def)
next
  case (Inr wc)
  obtain stamp w1 where n: "now_iso e w = (stamp, w1)" by (cases "now_iso e w")
  show ?thesis
  proof (cases "total_duration (tournament_metrics self)")
    case None
    with Inr n show ?thesis
      by (simp add: calculate_results_def erase_tournament_metrics_def)
  next
    case (Some td)
    with Inr n show ?thesis
      by (simp add: calculate_results_def erase_tournament_metrics_def erase_results_def
          agent_performance_erased)
  qed
qed

lemma set_start_erased: "set_start 0 (erase_tournament t) = erase_tournament (set_start t0 t)"
  by (simp add: set_start_def erase_tournament_def erase_tournament_metrics_def)

lemma set_end_erased: "set_end 0 0 (erase_tournament t) = erase_tournament (set_end t0 t1 t)"
  by (simp add: set_end_def erase_tournament_def erase_tournament_metrics_def)

lemma run_tournament_erased:
  assumes ans: "answers_as e f"
  shows "run_tournament (stub_env f) () (erase_tournament self) =
         map_sum id (\<lambda>(r, t, w'). (erase_results r, erase_tournament t, ()))
           (run_tournament e w self)"
proof -
  obtain t0 w0 where c: "clock e w = (t0, w0)" by (cases "clock e w")
  note ph = run_phases_erased [OF ans, of "set_start t0 self" w0]
  show ?thesis
  proof (cases "run_phases e w0 (set_start t0 self)")
    case (Inl err)
    with ph c show ?thesis
      by (simp add: run_tournament_def set_start_erased [of self t0])
  next
    case (Inr y)
    obtain s3 w3 where y: "y = (s3, w3)" by (cases y)
    obtain t1 w4 where c1: "clock e w3 = (t1, w4)" by (cases "clock e w3")
    note cr = calculate_results_erased [of f "set_end t0 t1 s3" e w4]
    show ?thesis
    proof (cases "calculate_results e w4 (set_end t0 t1 s3)")
      case Inl2: (Inl err)
      with ph c Inr y c1 cr show ?thesis
        by (simp add: run_tournament_def set_start_erased [of self t0]
            set_end_erased [of s3 t0 t1])
    next
      case Inr2: (Inr z)
      obtain res w5 where z: "z = (res, w5)" by (cases z)
      from ph c Inr y c1 cr Inr2 z show ?thesis
        by (simp add: run_tournament_def set_start_erased [of self t0]
            set_end_erased [of s3 t0 t1])
    qed
  qed
qed

text \<open>
  C8, as the code has it. Two runs of the tournament from the same state, with two
  backends that are the same stub (what a call returns depends on its model and messages
  only, as \<open>f\<close> says), whatever their clocks and their worlds: both raise the same
  exception, or both return, and the results written to \<open>tournament_results.json\<close> are
  the same but for the entries that hold a timestamp or a duration: \<open>timestamp\<close> and
  \<open>duration\<close> of \<open>tournament_info\<close>, and \<open>total_time\<close>, \<open>avg_response_time\<close>,
  \<open>min_response_time\<close> and \<open>max_response_time\<close> of each agent in \<open>agent_performance\<close>.
  The rankings, the win counts, and each agent's id, model and number of responses are
  the same.
\<close>

theorem two_runs_same_results:
  assumes "answers_as e1 f" and "answers_as e2 f"
  shows "map_sum id (\<lambda>(r, t, w'). erase_results r) (run_tournament e1 w1 self) =
         map_sum id (\<lambda>(r, t, w'). erase_results r) (run_tournament e2 w2 self)"
proof -
  have "map_sum id (\<lambda>(r, t, w'). erase_results r) (run_tournament e w self) =
        map_sum id (\<lambda>(r, t, w'). r) (run_tournament (stub_env f) () (erase_tournament self))"
    if "answers_as e f" for e :: "'x env" and w
    unfolding run_tournament_erased [OF that, of self w]
    by (cases "run_tournament e w self") auto
  from this [OF assms(1)] this [OF assms(2)] show ?thesis by simp
qed

theorem two_runs_same_results_witness:
  "\<exists>self res self' w'.
     DebateTournament_init 3 None None ''position'' = Inr self \<and>
     run_tournament (const_env ''A'') () self = Inr (res, self', w') \<and>
     answers_as (const_env ''A'') (\<lambda>m ms. Inr ''A'') \<and>
     answers_as (ticking_env ''A'') (\<lambda>m ms. Inr ''A'') \<and>
     map_sum id (\<lambda>(r, t, w'). erase_results r) (run_tournament (const_env ''A'') () self) =
     map_sum id (\<lambda>(r, t, w'). erase_results r) (run_tournament (ticking_env ''A'') 0 self)"
proof -
  from example_tournament obtain self res self' w' where
    init: "DebateTournament_init 3 None None ''position'' = Inr self"
    and run: "run_tournament (const_env ''A'') () self = Inr (res, self', w')"
    by auto
  have a1: "answers_as (const_env ''A'') (\<lambda>m ms. Inr ''A'')"
    by (simp add: answers_as_def const_env_def)
  have a2: "answers_as (ticking_env ''A'') (\<lambda>m ms. Inr ''A'')"
    by (simp add: answers_as_def ticking_env_def)
  note eq = two_runs_same_results [OF a1 a2, where ?w1.0 = "()" and self = self and ?w2.0 = 0]
  show ?thesis
    apply (rule exI [where x = self])
    apply (rule exI [where x = res])
    apply (rule exI [where x = self'])
    apply (rule exI [where x = w'])
    using init run a1 a2 eq apply simp
    done
qed

text \<open>
  The response times of an agent are durations measured with the clock: in two runs of
  three agents with the same stub, one with a clock that stands still and one with a
  running clock, every agent makes the same six calls, and its total response time is 0
  in the one run and 6 in the other. So these fields are among those that a comparison
  of two runs leaves out.
\<close>

lemma latencies_follow_the_clock:
  "case DebateTournament_init 3 None None ''position'' of
     Inl _ \<Rightarrow> False
   | Inr self \<Rightarrow>
       (case (run_tournament (const_env ''A'') () self,
              run_tournament (ticking_env ''A'') 0 self) of
          (Inr (r1, _, _), Inr (r2, _, _)) \<Rightarrow>
            map (\<lambda>x. m_total_time (snd x)) (agent_performance r1) = [0, 0, 0] \<and>
            map (\<lambda>x. m_total_time (snd x)) (agent_performance r2) = [6, 6, 6] \<and>
            map (\<lambda>x. total_responses (snd x)) (agent_performance r1) =
            map (\<lambda>x. total_responses (snd x)) (agent_performance r2)
        | _ \<Rightarrow> False)"
  by code_simp

text \<open>
  The response times of an agent are durations measured with the clock: in two runs of
  three agents with the same stub, one with a clock that stands still and one with a
  running clock, both runs return, and the first agent's total response time is 0 in
  the one and 6 in the other. So the results that the two runs write differ in more than
  the entries \<open>timestamp\<close> and \<open>duration\<close>: with these two set to a fixed value, they are
  still not the same.
\<close>

theorem two_runs_differ_counterexample:
  "answers_as (const_env ''A'') (const_stub ''A'') \<and>
   answers_as (ticking_env ''A'') (const_stub ''A'') \<and>
   \<not> isl (run_tournament (const_env ''A'') ()
            (projr (DebateTournament_init 3 None None ''position''))) \<and>
   \<not> isl (run_tournament (ticking_env ''A'') 0
            (projr (DebateTournament_init 3 None None ''position''))) \<and>
   m_total_time (snd (hd (agent_performance (fst (projr
      (run_tournament (const_env ''A'') ()
         (projr (DebateTournament_init 3 None None ''position''))))))))  = 0 \<and>
   m_total_time (snd (hd (agent_performance (fst (projr
      (run_tournament (ticking_env ''A'') 0
         (projr (DebateTournament_init 3 None None ''position''))))))))  = 6 \<and>
   map_sum id erase_timestamp_duration
     (written (run_tournament (const_env ''A'') ()
        (projr (DebateTournament_init 3 None None ''position'')))) \<noteq>
   map_sum id erase_timestamp_duration
     (written (run_tournament (ticking_env ''A'') 0
        (projr (DebateTournament_init 3 None None ''position''))))"
proof -
  let ?self = "projr (DebateTournament_init 3 None None ''position'')"
  let ?R1 = "run_tournament (const_env ''A'') () ?self"
  let ?R2 = "run_tournament (ticking_env ''A'') 0 ?self"
  have a1: "answers_as (const_env ''A'') (const_stub ''A'')"
    by (simp add: answers_as_def const_env_def const_stub_def)
  have a2: "answers_as (ticking_env ''A'') (const_stub ''A'')"
    by (simp add: answers_as_def ticking_env_def const_stub_def)
  have r1: "\<not> isl ?R1" by code_simp
  have r2: "\<not> isl ?R2" by code_simp
  have t1: "m_total_time (snd (hd (agent_performance (fst (projr ?R1))))) = 0" by code_simp
  have t2: "m_total_time (snd (hd (agent_performance (fst (projr ?R2))))) = 6" by code_simp
  have ne: "map_sum id erase_timestamp_duration (written ?R1) \<noteq>
            map_sum id erase_timestamp_duration (written ?R2)"
  proof
    assume eq: "map_sum id erase_timestamp_duration (written ?R1) =
                map_sum id erase_timestamp_duration (written ?R2)"
    from r1 have e1: "?R1 = Inr (projr ?R1)" by (cases ?R1) simp_all
    from r2 have e2: "?R2 = Inr (projr ?R2)" by (cases ?R2) simp_all
    have w1: "map_sum id erase_timestamp_duration (written ?R1) =
              Inr (erase_timestamp_duration (fst (projr ?R1)))"
      by (subst e1) (simp add: written_def)
    have w2: "map_sum id erase_timestamp_duration (written ?R2) =
              Inr (erase_timestamp_duration (fst (projr ?R2)))"
      by (subst e2) (simp add: written_def)
    from eq w1 w2 have "erase_timestamp_duration (fst (projr ?R1)) =
                        erase_timestamp_duration (fst (projr ?R2))" by simp
    then have "agent_performance (erase_timestamp_duration (fst (projr ?R1))) =
               agent_performance (erase_timestamp_duration (fst (projr ?R2)))" by simp
    then have "agent_performance (fst (projr ?R1)) = agent_performance (fst (projr ?R2))"
      by (simp add: erase_timestamp_duration_def)
    with t1 t2 show False by simp
  qed
  show ?thesis
    apply (rule conjI, rule a1)
    apply (rule conjI, rule a2)
    apply (rule conjI, rule r1)
    apply (rule conjI, rule r2)
    apply (rule conjI, rule t1)
    apply (rule conjI, rule t2)
    apply (rule ne)
    done
qed

end
